theory Spec2Isabelle
  imports Main "HOL-Library.Sublist" "HOL-Library.AList" "HOL-Library.Word"
begin

section \<open>Go strings, as byte lists\<close>

text \<open>
  A Go \<^verbatim>\<open>string\<close> is a sequence of bytes; \<^typ>\<open>string\<close> is a list of 8-bit characters.
  The functions of package \<^verbatim>\<open>strings\<close> that the loader and the strict wrapper call are
  written out here after their documented behaviour.  \<^verbatim>\<open>Index\<close> returns \<^verbatim>\<open>-1\<close> when the
  separator is absent; that is \<^const>\<open>None\<close>.
\<close>

fun Index :: "string \<Rightarrow> string \<Rightarrow> nat option" where
  "Index [] sep = (if sep = [] then Some 0 else None)"
| "Index (c # cs) sep =
     (if prefix sep (c # cs) then Some 0 else map_option Suc (Index cs sep))"

definition Contains :: "string \<Rightarrow> string \<Rightarrow> bool" where
  "Contains s sep = (Index s sep \<noteq> None)"

lemma Index_bound: "Index s sep = Some m \<Longrightarrow> m + length sep \<le> length s"
proof (induction s arbitrary: m)
  case Nil
  then show ?case by (simp split: if_splits)
next
  case (Cons c cs)
  show ?case
  proof (cases "prefix sep (c # cs)")
    case True
    with Cons.prems have "m = 0" by simp
    moreover from True have "length sep \<le> length (c # cs)" by (rule prefix_length_le)
    ultimately show ?thesis by simp
  next
    case False
    with Cons.prems obtain k where "Index cs sep = Some k" "m = Suc k" by auto
    with Cons.IH show ?thesis by fastforce
  qed
qed

text \<open>
  \<^verbatim>\<open>strings.Split(s, sep)\<close> cuts at every occurrence of \<^verbatim>\<open>sep\<close>, found from the left
  by \<^verbatim>\<open>Index\<close>, as the library's \<^verbatim>\<open>genSplit\<close> does.  Every call site passes a
  non-empty literal separator; for the empty separator (where Go explodes the string into
  its UTF-8 sequences) the model returns the string whole.
\<close>

function Split :: "string \<Rightarrow> string \<Rightarrow> string list" where
  "Split s sep =
     (if sep = [] then [s]
      else case Index s sep of
             None \<Rightarrow> [s]
           | Some m \<Rightarrow> take m s # Split (drop (m + length sep) s) sep)"
  by pat_completeness auto
termination
proof (relation "measure (\<lambda>(s, sep). length s)")
  show "wf (measure (\<lambda>(s, sep). length s))" by simp
next
  fix s sep :: string and m :: nat
  assume "sep \<noteq> []" and "Index s sep = Some m"
  then have "m + length sep \<le> length s" and "0 < length sep"
    by (simp_all add: Index_bound)
  then have "length (drop (m + length sep) s) < length s"
    unfolding length_drop by arith
  then show "((drop (m + length sep) s, sep), (s, sep)) \<in> measure (\<lambda>(s, sep). length s)"
    by simp
qed

declare Split.simps [simp del]

text \<open>\<^verbatim>\<open>strings.SplitN(s, sep, n)\<close> for \<^verbatim>\<open>n \<ge> 0\<close>: at most \<^verbatim>\<open>n\<close> pieces, the last one the
  unsplit rest.\<close>

fun SplitN :: "string \<Rightarrow> string \<Rightarrow> nat \<Rightarrow> string list" where
  "SplitN s sep 0 = []"
| "SplitN s sep (Suc 0) = [s]"
| "SplitN s sep (Suc (Suc n)) =
     (case Index s sep of
        None \<Rightarrow> [s]
      | Some m \<Rightarrow> take m s # SplitN (drop (m + length sep) s) sep (Suc n))"

text \<open>
  Case mapping in \<^verbatim>\<open>convertValue\<close>.  There \<^verbatim>\<open>strings.ToLower\<close> is only compared with the
  ASCII literals \<^verbatim>\<open>true\<close> and \<^verbatim>\<open>false\<close>.  \<open>ToLower\<close> below maps the ASCII letters and
  keeps every byte from \<open>0x80\<close> on.  No rune outside ASCII is mapped to one of the letters
  of \<^verbatim>\<open>true\<close> or \<^verbatim>\<open>false\<close>, and a byte that is no UTF-8 becomes U+FFFD, so the two
  comparisons are exact on every string.  The function with runes and the Unicode tables,
  which \<^verbatim>\<open>toCamelCase\<close> needs, is \<open>stringsToLower\<close> further down.
\<close>

definition is_ascii :: "char \<Rightarrow> bool" where
  "is_ascii c = ((of_char c :: nat) < 128)"

definition lowerByte :: "char \<Rightarrow> char" where
  "lowerByte c = (let n = (of_char c :: nat) in if 65 \<le> n \<and> n \<le> 90 then char_of (n + 32) else c)"

definition upperByte :: "char \<Rightarrow> char" where
  "upperByte c = (let n = (of_char c :: nat) in if 97 \<le> n \<and> n \<le> 122 then char_of (n - 32) else c)"

definition ToLower :: "string \<Rightarrow> string" where
  "ToLower s = map lowerByte s"

text \<open>
  The conversion \<^verbatim>\<open>string(b)\<close> of a byte \<^verbatim>\<open>b\<close> yields the UTF-8 encoding of the code
  point \<^verbatim>\<open>b\<close>: one byte below \<open>0x80\<close>, two bytes from there on.
\<close>

definition string_of_byte :: "char \<Rightarrow> string" where
  "string_of_byte c =
     (let n = (of_char c :: nat)
      in if n < 128 then [c] else [char_of (192 + n div 64), char_of (128 + n mod 64)])"

text \<open>
  \<^verbatim>\<open>strings.TrimSpace\<close> removes leading and trailing Unicode white space.  On bytes,
  these are the UTF-8 encodings of U+0009 to U+000D, U+0020, U+0085, U+00A0, U+1680,
  U+2000 to U+200A, U+2028, U+2029, U+202F, U+205F and U+3000.
\<close>

definition spaceSeqs :: "string list" where
  "spaceSeqs =
     [[CHR 0x09], [CHR 0x0A], [CHR 0x0B], [CHR 0x0C], [CHR 0x0D], [CHR 0x20],
      [CHR 0xC2, CHR 0x85], [CHR 0xC2, CHR 0xA0], [CHR 0xE1, CHR 0x9A, CHR 0x80],
      [CHR 0xE2, CHR 0x80, CHR 0x80], [CHR 0xE2, CHR 0x80, CHR 0x81],
      [CHR 0xE2, CHR 0x80, CHR 0x82], [CHR 0xE2, CHR 0x80, CHR 0x83],
      [CHR 0xE2, CHR 0x80, CHR 0x84], [CHR 0xE2, CHR 0x80, CHR 0x85],
      [CHR 0xE2, CHR 0x80, CHR 0x86], [CHR 0xE2, CHR 0x80, CHR 0x87],
      [CHR 0xE2, CHR 0x80, CHR 0x88], [CHR 0xE2, CHR 0x80, CHR 0x89],
      [CHR 0xE2, CHR 0x80, CHR 0x8A], [CHR 0xE2, CHR 0x80, CHR 0xA8],
      [CHR 0xE2, CHR 0x80, CHR 0xA9], [CHR 0xE2, CHR 0x80, CHR 0xAF],
      [CHR 0xE2, CHR 0x81, CHR 0x9F], [CHR 0xE3, CHR 0x80, CHR 0x80]]"

function trimPrefixes :: "string list \<Rightarrow> string \<Rightarrow> string" where
  "trimPrefixes ws s =
     (case find (\<lambda>w. prefix w s) ws of
        None \<Rightarrow> s
      | Some w \<Rightarrow> if w = [] then s else trimPrefixes ws (drop (length w) s))"
  by pat_completeness auto
termination
proof (relation "measure (\<lambda>(ws, s). length s)")
  show "wf (measure (\<lambda>(ws, s). length s))" by simp
next
  fix ws :: "string list" and s w :: string
  assume "find (\<lambda>w. prefix w s) ws = Some w" and "w \<noteq> []"
  then have "prefix w s" and "0 < length w"
    by (auto simp: find_Some_iff)
  then have "length w \<le> length s" and "0 < length w"
    by (auto dest: prefix_length_le)
  then have "length (drop (length w) s) < length s"
    unfolding length_drop by arith
  then show "((ws, drop (length w) s), (ws, s)) \<in> measure (\<lambda>(ws, s). length s)"
    by simp
qed

declare trimPrefixes.simps [simp del]

definition TrimSpace :: "string \<Rightarrow> string" where
  "TrimSpace s = rev (trimPrefixes (map rev spaceSeqs) (rev (trimPrefixes spaceSeqs s)))"

section \<open>Runes and case mapping\<close>

text \<open>
  A rune is a code point, a 32-bit integer in Go and an integer here.
  \<^verbatim>\<open>utf8.DecodeRuneInString\<close> returns the first rune of a string and its width in bytes.
  Only the shortest encoding of a code point up to U+10FFFF that is no surrogate is
  accepted: the second byte of a sequence is checked against a range that depends on the
  first, every later byte against \<open>0x80\<close> to \<open>0xBF\<close>.  Anything else, a sequence cut
  short included, yields \<^verbatim>\<open>RuneError\<close> (U+FFFD) and width 1; the empty string yields
  \<^verbatim>\<open>RuneError\<close> and width 0.
\<close>

definition RuneError :: int where
  "RuneError = 0xFFFD"

definition MaxRune :: int where
  "MaxRune = 0x10FFFF"

definition inRange :: "int \<Rightarrow> int \<Rightarrow> char \<Rightarrow> bool" where
  "inRange lo hi c = (lo \<le> (of_char c :: int) \<and> (of_char c :: int) \<le> hi)"

definition lowBits :: "char \<Rightarrow> int" where
  "lowBits c = (of_char c :: int) mod 64"

definition DecodeRuneInString :: "string \<Rightarrow> int \<times> nat" where
  "DecodeRuneInString s =
     (case s of
        [] \<Rightarrow> (RuneError, 0)
      | c0 # rest \<Rightarrow>
          (let b0 = (of_char c0 :: int)
           in if b0 < 0x80 then (b0, 1)
              else if 0xC2 \<le> b0 \<and> b0 \<le> 0xDF then
                (case rest of
                   c1 # _ \<Rightarrow>
                     if inRange 0x80 0xBF c1 then ((b0 mod 32) * 64 + lowBits c1, 2)
                     else (RuneError, 1)
                 | _ \<Rightarrow> (RuneError, 1))
              else if 0xE0 \<le> b0 \<and> b0 \<le> 0xEF then
                (case rest of
                   c1 # c2 # _ \<Rightarrow>
                     if inRange (if b0 = 0xE0 then 0xA0 else 0x80) (if b0 = 0xED then 0x9F else 0xBF) c1
                        \<and> inRange 0x80 0xBF c2
                     then (((b0 mod 16) * 64 + lowBits c1) * 64 + lowBits c2, 3)
                     else (RuneError, 1)
                 | _ \<Rightarrow> (RuneError, 1))
              else if 0xF0 \<le> b0 \<and> b0 \<le> 0xF4 then
                (case rest of
                   c1 # c2 # c3 # _ \<Rightarrow>
                     if inRange (if b0 = 0xF0 then 0x90 else 0x80) (if b0 = 0xF4 then 0x8F else 0xBF) c1
                        \<and> inRange 0x80 0xBF c2 \<and> inRange 0x80 0xBF c3
                     then ((((b0 mod 8) * 64 + lowBits c1) * 64 + lowBits c2) * 64 + lowBits c3, 4)
                     else (RuneError, 1)
                 | _ \<Rightarrow> (RuneError, 1))
              else (RuneError, 1)))"

lemma DecodeRuneInString_width: "s \<noteq> [] \<Longrightarrow> 0 < snd (DecodeRuneInString s)"
  by (auto simp: DecodeRuneInString_def Let_def split: list.splits)

lemma DecodeRuneInString_shorter:
  "s \<noteq> [] \<Longrightarrow> (c, width) = DecodeRuneInString s \<Longrightarrow> length s - width < length s"
  using DecodeRuneInString_width [of s] by (cases "DecodeRuneInString s") auto

lemma DecodeRuneInString_step:
  "\<not> length s \<le> i \<Longrightarrow> (c, width) = DecodeRuneInString (drop i s) \<Longrightarrow>
     length s - (i + width) < length s - i"
  using DecodeRuneInString_width [of "drop i s"] by (cases "DecodeRuneInString (drop i s)") auto

text \<open>
  \<^verbatim>\<open>utf8.AppendRune\<close>, by which a string builder writes a rune: one to four bytes, and
  the three bytes of \<^verbatim>\<open>RuneError\<close> for a surrogate and for a number that, as an unsigned
  32-bit integer, lies above \<^verbatim>\<open>MaxRune\<close>; a negative rune is such a number.
\<close>

definition AppendRune :: "int \<Rightarrow> string" where
  "AppendRune r =
     (let i = r mod 2 ^ 32
      in if i \<le> 0x7F then [char_of i]
         else if i \<le> 0x7FF then [char_of (0xC0 + i div 64), char_of (0x80 + i mod 64)]
         else if i > MaxRune \<or> (0xD800 \<le> i \<and> i \<le> 0xDFFF) then [CHR 0xEF, CHR 0xBF, CHR 0xBD]
         else if i \<le> 0xFFFF then
           [char_of (0xE0 + i div 4096), char_of (0x80 + (i div 64) mod 64), char_of (0x80 + i mod 64)]
         else
           [char_of (0xF0 + i div 262144), char_of (0x80 + (i div 4096) mod 64),
            char_of (0x80 + (i div 64) mod 64), char_of (0x80 + i mod 64)])"

text \<open>
  \<^verbatim>\<open>strings.Map(mapping, s)\<close>.  Its first loop ranges over the runes of \<^verbatim>\<open>s\<close> (a byte
  that starts no valid encoding counts as \<^verbatim>\<open>RuneError\<close>, one byte wide) up to the first
  rune \<^verbatim>\<open>c\<close> that the mapping changes or that is such a byte; if there is none it returns
  \<^verbatim>\<open>s\<close>.  Otherwise it copies \<^verbatim>\<open>s[:i]\<close>, writes the mapped rune and, in its second loop
  (\<open>mapRest\<close>), the mapped rune of every rune that follows.  A negative mapped rune is
  dropped.
\<close>

function mapRest :: "(int \<Rightarrow> int) \<Rightarrow> string \<Rightarrow> string" where
  "mapRest mapping s =
     (if s = [] then []
      else (case DecodeRuneInString s of
              (c, width) \<Rightarrow>
                (if 0 \<le> mapping c then AppendRune (mapping c) else [])
                @ mapRest mapping (drop width s)))"
  by pat_completeness auto
termination
  by (relation "measure (\<lambda>(mapping, s). length s)") (simp_all add: DecodeRuneInString_shorter)

declare mapRest.simps [simp del]

function mapFirst :: "(int \<Rightarrow> int) \<Rightarrow> string \<Rightarrow> nat \<Rightarrow> string" where
  "mapFirst mapping s i =
     (if length s \<le> i then s
      else (case DecodeRuneInString (drop i s) of
              (c, width) \<Rightarrow>
                if mapping c = c \<and> c \<noteq> RuneError then mapFirst mapping s (i + width)
                else if c = RuneError \<and> width \<noteq> 1 \<and> mapping c = c
                  then mapFirst mapping s (i + width)
                else take i s @ (if 0 \<le> mapping c then AppendRune (mapping c) else [])
                     @ mapRest mapping (drop (i + width) s)))"
  by pat_completeness auto
termination
  by (relation "measure (\<lambda>(mapping, s, i). length s - i)") (simp_all add: DecodeRuneInString_step)

declare mapFirst.simps [simp del]

definition stringsMap :: "(int \<Rightarrow> int) \<Rightarrow> string \<Rightarrow> string" where
  "stringsMap mapping s = mapFirst mapping s 0"

text \<open>
  \<^verbatim>\<open>unicode.ToLower\<close> and \<^verbatim>\<open>unicode.ToUpper\<close> decide the ASCII runes by comparison and
  look every other rune up in the case tables of the Unicode standard, which are not part
  of the repository: \<open>lowerTable\<close> and \<open>upperTable\<close> stand for \<^verbatim>\<open>unicode.To(LowerCase, r)\<close>
  and \<^verbatim>\<open>unicode.To(UpperCase, r)\<close>.
\<close>

definition unicodeToLower :: "(int \<Rightarrow> int) \<Rightarrow> int \<Rightarrow> int" where
  "unicodeToLower lowerTable r =
     (if r \<le> 0x7F then (if 65 \<le> r \<and> r \<le> 90 then r + 32 else r) else lowerTable r)"

definition unicodeToUpper :: "(int \<Rightarrow> int) \<Rightarrow> int \<Rightarrow> int" where
  "unicodeToUpper upperTable r =
     (if r \<le> 0x7F then (if 97 \<le> r \<and> r \<le> 122 then r - 32 else r) else upperTable r)"

text \<open>
  \<^verbatim>\<open>strings.ToLower\<close> and \<^verbatim>\<open>strings.ToUpper\<close>: a string of ASCII bytes is mapped byte by
  byte, any other string goes through \<^verbatim>\<open>Map\<close>.
\<close>

definition stringsToLower :: "(int \<Rightarrow> int) \<Rightarrow> string \<Rightarrow> string" where
  "stringsToLower lowerTable s =
     (if \<forall>c\<in>set s. is_ascii c then map lowerByte s
      else stringsMap (unicodeToLower lowerTable) s)"

definition stringsToUpper :: "(int \<Rightarrow> int) \<Rightarrow> string \<Rightarrow> string" where
  "stringsToUpper upperTable s =
     (if \<forall>c\<in>set s. is_ascii c then map upperByte s
      else stringsMap (unicodeToUpper upperTable) s)"

section \<open>Environment keys: \<^verbatim>\<open>toCamelCase\<close>\<close>

text \<open>
  The loop of \<^verbatim>\<open>toCamelCase\<close> over \<^verbatim>\<open>parts[1:]\<close>, with \<^verbatim>\<open>result\<close> as accumulator.
  \<^verbatim>\<open>parts[i][0]\<close> is a byte, and \<^verbatim>\<open>string\<close> of a byte is \<^const>\<open>string_of_byte\<close>.
\<close>

fun camelLoop :: "(int \<Rightarrow> int) \<Rightarrow> string \<Rightarrow> string list \<Rightarrow> string" where
  "camelLoop upperTable result [] = result"
| "camelLoop upperTable result (p # ps) =
     camelLoop upperTable
       (if length p > 0 then result @ stringsToUpper upperTable (string_of_byte (hd p)) @ tl p
        else result)
       ps"

text \<open>\<^verbatim>\<open>parts[0]\<close> exists: \<^const>\<open>Split\<close> never returns the empty list (lemma
  \<open>Split_nonempty\<close> below), so the \<open>[]\<close> branch is unreachable.\<close>

definition toCamelCase :: "(int \<Rightarrow> int) \<Rightarrow> (int \<Rightarrow> int) \<Rightarrow> string \<Rightarrow> string" where
  "toCamelCase lowerTable upperTable s =
     (if s = [] then s
      else case Split (stringsToLower lowerTable s) ''_'' of
             [] \<Rightarrow> []
           | p0 # ps \<Rightarrow> camelLoop upperTable p0 ps)"

section \<open>Value trees\<close>

text \<open>
  A value of Go's \<^verbatim>\<open>any\<close> as the loader, the YAML decoder and the merger produce it.
  \<open>VMap\<close> is a \<^verbatim>\<open>map[string]any\<close>, \<open>VIMap\<close> a \<^verbatim>\<open>map[interface{}]interface{}\<close> (what
  \<^verbatim>\<open>yaml.v2\<close> decodes a nested mapping to), \<open>VSlice\<close> a \<^verbatim>\<open>[]any\<close>.  A \<^verbatim>\<open>float64\<close> is
  its IEEE-754 bit pattern.  A map is an association list; Go maps have one entry per
  key, so well-formed lists have distinct keys, and a \<^verbatim>\<open>range\<close> loop visits the entries
  in the order of the list, which stands for the arbitrary order Go picks.
\<close>

datatype val =
    VNil
  | VBool bool
  | VInt int
  | VFloat "64 word"
  | VStr string
  | VMap "(string \<times> val) list"
  | VIMap "(val \<times> val) list"
  | VSlice "val list"

type_synonym tree = "(string \<times> val) list"

text \<open>The type assertion \<^verbatim>\<open>v.(map[string]any)\<close>.\<close>

fun asMap :: "val option \<Rightarrow> tree option" where
  "asMap (Some (VMap m)) = Some m"
| "asMap _ = None"

fun isMap :: "val \<Rightarrow> bool" where
  "isMap (VMap m) = True"
| "isMap _ = False"

section \<open>Override values: \<^verbatim>\<open>convertValue\<close>\<close>

text \<open>
  \<^verbatim>\<open>strconv.Atoi\<close>: an optional sign, then one or more decimal digits, and a value that
  fits the 64-bit \<^verbatim>\<open>int\<close>; anything else is an error.
\<close>

definition isDigit :: "char \<Rightarrow> bool" where
  "isDigit c = (let n = (of_char c :: nat) in 48 \<le> n \<and> n \<le> 57)"

definition digitsValue :: "string \<Rightarrow> int" where
  "digitsValue ds = foldl (\<lambda>n c. n * 10 + (of_char c - 48)) 0 ds"

definition Atoi :: "string \<Rightarrow> int option" where
  "Atoi s =
     (let neg = (s \<noteq> [] \<and> hd s = CHR ''-'');
          ds = (if s \<noteq> [] \<and> (hd s = CHR ''-'' \<or> hd s = CHR ''+'') then tl s else s)
      in if ds = [] \<or> \<not> list_all isDigit ds then None
         else let n = (if neg then - digitsValue ds else digitsValue ds)
              in if - (2 ^ 63) \<le> n \<and> n < 2 ^ 63 then Some n else None)"

text \<open>
  \<^verbatim>\<open>strconv.ParseFloat(value, 64)\<close> is a parameter \<open>parseFloat\<close> of the model:
  \<^const>\<open>None\<close> where it returns an error.
\<close>

definition convertValue :: "(string \<Rightarrow> 64 word option) \<Rightarrow> string \<Rightarrow> val" where
  "convertValue parseFloat value =
     (if ToLower value = ''true'' then VBool True
      else if ToLower value = ''false'' then VBool False
      else case Atoi value of
             Some intVal \<Rightarrow> VInt intVal
           | None \<Rightarrow>
               (case parseFloat value of
                  Some floatVal \<Rightarrow> VFloat floatVal
                | None \<Rightarrow> VStr value))"

section \<open>Override values: \<^verbatim>\<open>setNestedValue\<close> and \<^verbatim>\<open>ParseSetValues\<close>\<close>

datatype error =
    InvalidSetFormat string
  | NotAMap string
  | SetNestedError string error
  | StrictModeError string string
  | ExecError string
  | ParseError string

text \<open>\<^verbatim>\<open>strings.Join\<close>.\<close>

fun Join :: "string list \<Rightarrow> string \<Rightarrow> string" where
  "Join [] sep = []"
| "Join [x] sep = x"
| "Join (x # y # ys) sep = x @ sep @ Join (y # ys) sep"

text \<open>
  The walk of \<^verbatim>\<open>setNestedValue\<close> down \<^verbatim>\<open>keys[:len(keys)-1]\<close>, then the final store.  The
  Go code mutates the nested maps in place; here each level returns its updated map to
  the level above.  \<open>seen\<close> is \<^verbatim>\<open>keys[:i]\<close>, kept for the error message.  The maps
  that the walk creates lie below a key that did not exist, so no error can follow their
  creation: a failing call leaves the tree as it was, as the model has it.  \<^verbatim>\<open>keys\<close> is
  never empty (\<^const>\<open>Split\<close> returns at least one piece), so the first equation is
  unreachable.
\<close>

fun setNestedLoop :: "string list \<Rightarrow> tree \<Rightarrow> string list \<Rightarrow> val \<Rightarrow> error + tree" where
  "setNestedLoop seen current [] value = Inr current"
| "setNestedLoop seen current [finalKey] value = Inr (AList.update finalKey value current)"
| "setNestedLoop seen current (k # k' # ks) value =
     (let current1 = (if map_of current k = None then AList.update k (VMap []) current else current)
      in case asMap (map_of current1 k) of
           Some nextMap \<Rightarrow>
             (case setNestedLoop (seen @ [k]) nextMap (k' # ks) value of
                Inl e \<Rightarrow> Inl e
              | Inr m \<Rightarrow> Inr (AList.update k (VMap m) current1))
         | None \<Rightarrow> Inl (NotAMap (Join (seen @ [k]) ''.'')))"

definition setNestedValue :: "tree \<Rightarrow> string \<Rightarrow> val \<Rightarrow> error + tree" where
  "setNestedValue values key value = setNestedLoop [] values (Split key ''.'') value"

text \<open>
  The body of the inner loop of \<^verbatim>\<open>ParseSetValues\<close> for one trimmed, non-empty pair, and
  the loop over the comma-separated pairs of one string.
\<close>

definition parsePair :: "(string \<Rightarrow> 64 word option) \<Rightarrow> tree \<Rightarrow> string \<Rightarrow> error + tree" where
  "parsePair pf parsedValues pair =
     (let parts = SplitN pair ''='' 2
      in if length parts \<noteq> 2 then Inl (InvalidSetFormat pair)
         else let key = TrimSpace (parts ! 0);
                  value = TrimSpace (parts ! 1);
                  convertedValue = convertValue pf value
              in case setNestedValue parsedValues key convertedValue of
                   Inl e \<Rightarrow> Inl (SetNestedError key e)
                 | Inr parsedValues' \<Rightarrow> Inr parsedValues')"

fun parsePairs :: "(string \<Rightarrow> 64 word option) \<Rightarrow> tree \<Rightarrow> string list \<Rightarrow> error + tree" where
  "parsePairs pf parsedValues [] = Inr parsedValues"
| "parsePairs pf parsedValues (p # pairs) =
     (let pair = TrimSpace p
      in if pair = [] then parsePairs pf parsedValues pairs
         else case parsePair pf parsedValues pair of
                Inl e \<Rightarrow> Inl e
              | Inr parsedValues' \<Rightarrow> parsePairs pf parsedValues' pairs)"

text \<open>The outer loop over \<^verbatim>\<open>setValues\<close>.\<close>

fun parseSetLoop :: "(string \<Rightarrow> 64 word option) \<Rightarrow> tree \<Rightarrow> string list \<Rightarrow> error + tree" where
  "parseSetLoop pf parsedValues [] = Inr parsedValues"
| "parseSetLoop pf parsedValues (setValue # rest) =
     (case parsePairs pf parsedValues (Split setValue '','') of
        Inl e \<Rightarrow> Inl e
      | Inr parsedValues' \<Rightarrow> parseSetLoop pf parsedValues' rest)"

definition ParseSetValues :: "(string \<Rightarrow> 64 word option) \<Rightarrow> string list \<Rightarrow> error + tree" where
  "ParseSetValues pf setValues = parseSetLoop pf [] setValues"

section \<open>The merger: \<^verbatim>\<open>deepMerge\<close> and \<^verbatim>\<open>MergeValues\<close> on values\<close>

text \<open>
  \<^verbatim>\<open>deepMerge(dst, src)\<close> as a function from the two maps to the new contents of
  \<^verbatim>\<open>dst\<close>: where the Go code merges into the nested map \<^verbatim>\<open>dstMap\<close> in place, the entry
  of \<^verbatim>\<open>dst\<close> is replaced by the merged map.  This is the merge when no map of \<^verbatim>\<open>dst\<close> is
  also a map of \<^verbatim>\<open>src\<close>, as in \<^verbatim>\<open>MergeValues\<close>, whose accumulator is new; sharing is the
  subject of the store model further down.
\<close>

fun deepMerge :: "tree \<Rightarrow> tree \<Rightarrow> tree" where
  "deepMerge dst [] = dst"
| "deepMerge dst ((k, v) # src) =
     deepMerge
       (case v of
          VMap srcMap \<Rightarrow>
            (case asMap (map_of dst k) of
               Some dstMap \<Rightarrow> AList.update k (VMap (deepMerge dstMap srcMap)) dst
             | None \<Rightarrow> AList.update k (VMap (deepMerge [] srcMap)) dst)
        | _ \<Rightarrow> AList.update k v dst)
       src"

definition MergeValues :: "tree \<Rightarrow> tree \<Rightarrow> tree \<Rightarrow> tree \<Rightarrow> tree" where
  "MergeValues yamlValues envValues setValues configValues =
     (let merged = [];
          merged = deepMerge merged yamlValues;
          merged = deepMerge merged envValues;
          merged = deepMerge merged setValues;
          merged = deepMerge merged configValues
      in merged)"

section \<open>The merger on a store\<close>

text \<open>
  Go maps and slices are references.  To follow which objects a merged tree shares with
  its sources, values become references into a store: a list of objects, an address being
  an index, and \<^verbatim>\<open>make\<close> appending a new object.  \<open>RMap\<close> refers to a \<^verbatim>\<open>map[string]any\<close>,
  \<open>RIMap\<close> to a \<^verbatim>\<open>map[interface{}]interface{}\<close>, \<open>RSlice\<close> to the array of a \<^verbatim>\<open>[]any\<close>.
\<close>

datatype rval =
    RNil | RBool bool | RInt int | RFloat "64 word" | RStr string
  | RMap nat | RIMap nat | RSlice nat

datatype obj =
    OMap "(string \<times> rval) list"
  | OIMap "(rval \<times> rval) list"
  | OSlice "rval list"

type_synonym store = "obj list"

text \<open>The entries of the string-keyed map at an address (\<^const>\<open>None\<close>: no such map), the
  read \<^verbatim>\<open>m[k]\<close>, the store \<^verbatim>\<open>m[k] = v\<close> and \<^verbatim>\<open>make(map[string]any)\<close>.\<close>

definition entriesAt :: "store \<Rightarrow> nat \<Rightarrow> (string \<times> rval) list option" where
  "entriesAt h a =
     (if a < length h then (case h ! a of OMap es \<Rightarrow> Some es | _ \<Rightarrow> None) else None)"

definition lookupS :: "store \<Rightarrow> nat \<Rightarrow> string \<Rightarrow> rval option" where
  "lookupS h a k = (case entriesAt h a of Some es \<Rightarrow> map_of es k | None \<Rightarrow> None)"

definition storeS :: "store \<Rightarrow> nat \<Rightarrow> string \<Rightarrow> rval \<Rightarrow> store option" where
  "storeS h a k v =
     (case entriesAt h a of
        Some es \<Rightarrow> Some (h[a := OMap (AList.update k v es)])
      | None \<Rightarrow> None)"

definition makeMap :: "store \<Rightarrow> store \<times> nat" where
  "makeMap h = (h @ [OMap []], length h)"

text \<open>
  The body of the loop of \<^verbatim>\<open>deepMerge\<close> for one entry of \<^verbatim>\<open>src\<close>, the recursive call
  being a parameter; the \<^verbatim>\<open>range\<close> loop over the entries that \<^verbatim>\<open>src\<close> has when the loop
  starts; and \<^verbatim>\<open>deepMerge\<close> itself.  The recursion of the Go function is bounded by the
  stack; here by \<open>fuel\<close>, the number of nested calls allowed, and a call that runs out of
  it, or meets an address that holds no string-keyed map, returns \<^const>\<open>None\<close>.
\<close>

definition mergeStep ::
  "(store \<Rightarrow> nat \<Rightarrow> nat \<Rightarrow> store option) \<Rightarrow> nat \<Rightarrow> store \<Rightarrow> string \<Rightarrow> rval \<Rightarrow> store option" where
  "mergeStep deepMergeRec dst h k v =
     (case v of
        RMap srcMap \<Rightarrow>
          (case lookupS h dst k of
             Some (RMap dstMap) \<Rightarrow> deepMergeRec h dstMap srcMap
           | _ \<Rightarrow>
              (case makeMap h of
                 (h1, newMap) \<Rightarrow>
                   (case deepMergeRec h1 newMap srcMap of
                      None \<Rightarrow> None
                    | Some h2 \<Rightarrow> storeS h2 dst k (RMap newMap))))
      | _ \<Rightarrow> storeS h dst k v)"

fun rangeLoop ::
  "(store \<Rightarrow> string \<Rightarrow> rval \<Rightarrow> store option) \<Rightarrow> store \<Rightarrow> (string \<times> rval) list \<Rightarrow> store option" where
  "rangeLoop body h [] = Some h"
| "rangeLoop body h ((k, v) # es) =
     (case body h k v of None \<Rightarrow> None | Some h' \<Rightarrow> rangeLoop body h' es)"

primrec deepMergeS :: "nat \<Rightarrow> store \<Rightarrow> nat \<Rightarrow> nat \<Rightarrow> store option" where
  "deepMergeS 0 h dst src = None"
| "deepMergeS (Suc fuel) h dst src =
     (case entriesAt h src of
        None \<Rightarrow> None
      | Some es \<Rightarrow> rangeLoop (mergeStep (deepMergeS fuel) dst) h es)"

definition MergeValuesS ::
  "nat \<Rightarrow> store \<Rightarrow> nat \<Rightarrow> nat \<Rightarrow> nat \<Rightarrow> nat \<Rightarrow> (store \<times> nat) option" where
  "MergeValuesS fuel h yamlValues envValues setValues configValues =
     (case makeMap h of
        (h0, merged) \<Rightarrow>
          (case deepMergeS fuel h0 merged yamlValues of
             None \<Rightarrow> None
           | Some h1 \<Rightarrow>
              (case deepMergeS fuel h1 merged envValues of
                 None \<Rightarrow> None
               | Some h2 \<Rightarrow>
                  (case deepMergeS fuel h2 merged setValues of
                     None \<Rightarrow> None
                   | Some h3 \<Rightarrow>
                      (case deepMergeS fuel h3 merged configValues of
                         None \<Rightarrow> None
                       | Some h4 \<Rightarrow> Some (h4, merged))))))"

text \<open>
  A source tree in a store: below the address, string-keyed maps nest at most \<open>n\<close> deep
  and every reference to a string-keyed map leads to one.  Slices and interface-keyed
  maps may hold anything.
\<close>

fun depthOK :: "nat \<Rightarrow> store \<Rightarrow> nat \<Rightarrow> bool" where
  "depthOK 0 h a = False"
| "depthOK (Suc n) h a =
     (case entriesAt h a of
        None \<Rightarrow> False
      | Some es \<Rightarrow> list_all (\<lambda>(k, v). case v of RMap b \<Rightarrow> depthOK n h b | _ \<Rightarrow> True) es)"

text \<open>The string-keyed maps reached from an address through entries of string-keyed maps:
  the nodes of the tree at that address.\<close>

inductive mapReach :: "store \<Rightarrow> nat \<Rightarrow> nat \<Rightarrow> bool" for h :: store and a :: nat where
  start: "mapReach h a a"
| step: "mapReach h a b \<Longrightarrow> entriesAt h b = Some es \<Longrightarrow> (k, RMap c) \<in> set es \<Longrightarrow> mapReach h a c"

section \<open>The strict template wrapper\<close>

text \<open>
  \<^verbatim>\<open>extractVariableFromError\<close>.  Each of its two \<^verbatim>\<open>if\<close> statements either returns a name
  or falls through to the next statement; \<^const>\<open>None\<close> is the fall-through.  Every index
  the code uses is guarded by the length test before it, as in the source.
\<close>

definition keyPattern :: "string \<Rightarrow> string option" where
  "keyPattern errMsg =
     (if Contains errMsg ''map has no entry for key'' then
        (let parts = Split errMsg (''key '' @ [CHR 0x22])
         in if length parts > 1 then
              (case Index (parts ! 1) [CHR 0x22] of
                 Some endQuote \<Rightarrow> if endQuote > 0 then Some (take endQuote (parts ! 1)) else None
               | None \<Rightarrow> None)
            else None)
      else None)"

definition fieldPattern :: "string \<Rightarrow> string option" where
  "fieldPattern errMsg =
     (if Contains errMsg ''can't evaluate field'' then
        (let parts = Split errMsg ''field ''
         in if length parts > 1 then
              (let spaceParts = Split (parts ! 1) '' ''
               in if length spaceParts > 0 then Some (spaceParts ! 0) else None)
            else None)
      else None)"

definition extractVariableFromError :: "string \<Rightarrow> string" where
  "extractVariableFromError errMsg =
     (case keyPattern errMsg of
        Some variable \<Rightarrow> variable
      | None \<Rightarrow>
          (case fieldPattern errMsg of
             Some variable \<Rightarrow> variable
           | None \<Rightarrow> ''unknown''))"

text \<open>
  The template engine (\<^verbatim>\<open>text/template\<close>) is not part of the repository.  Of a
  \<^verbatim>\<open>*template.Template\<close> the wrapper touches the name, the option \<^verbatim>\<open>missingkey=error\<close>
  and the parse tree (the function table it installs is the engine's business);
  \<^verbatim>\<open>Parse\<close> and \<^verbatim>\<open>Execute\<close> are parameters of the model, each returning the text of its
  error on the left.  \<^verbatim>\<open>ExecuteTemplate\<close> returns the empty string with an error, so
  what the engine wrote before failing is dropped.
\<close>

record 'b Template =
  tname :: string
  missingkeyError :: bool
  parseTree :: "'b option"

record 'b StrictTemplate =
  Template :: "'b Template"
  StrictMode :: bool

definition NewStrictTemplate :: "string \<Rightarrow> bool \<Rightarrow> 'b StrictTemplate" where
  "NewStrictTemplate name strictMode =
     (let tmpl = \<lparr>tname = name, missingkeyError = False, parseTree = None\<rparr>;
          tmpl = (if strictMode then tmpl\<lparr>missingkeyError := True\<rparr> else tmpl)
      in \<lparr>Template = tmpl, StrictMode = strictMode\<rparr>)"

definition ParseTemplate ::
  "(string \<Rightarrow> string + 'b) \<Rightarrow> 'b StrictTemplate \<Rightarrow> string \<Rightarrow> error + 'b StrictTemplate" where
  "ParseTemplate parse st content =
     (case parse content of
        Inl err \<Rightarrow> Inl (ParseError err)
      | Inr t \<Rightarrow> Inr \<lparr>Template = (Template st)\<lparr>parseTree := Some t\<rparr>, StrictMode = StrictMode st\<rparr>)"

definition ExecuteTemplate ::
  "('b Template \<Rightarrow> val \<Rightarrow> string + string) \<Rightarrow> 'b StrictTemplate \<Rightarrow> val \<Rightarrow> error + string" where
  "ExecuteTemplate execute st data =
     (if StrictMode st then
        (case execute (Template st) data of
           Inl err \<Rightarrow>
             if Contains err ''map has no entry for key'' \<or> Contains err ''can't evaluate field''
             then Inl (StrictModeError (extractVariableFromError err) (tname (Template st)))
             else Inl (ExecError err)
         | Inr result \<Rightarrow> Inr result)
      else
        (case execute (Template st) data of
           Inl err \<Rightarrow> Inl (ExecError err)
         | Inr result \<Rightarrow> Inr result))"

text \<open>The three calls in the order every caller makes them: \<^verbatim>\<open>NewStrictTemplate\<close>,
  \<^verbatim>\<open>ParseTemplate\<close>, \<^verbatim>\<open>ExecuteTemplate\<close>.\<close>

definition render :: "(string \<Rightarrow> string + 'b) \<Rightarrow> ('b Template \<Rightarrow> val \<Rightarrow> string + string) \<Rightarrow>
    string \<Rightarrow> bool \<Rightarrow> string \<Rightarrow> val \<Rightarrow> error + string" where
  "render parse execute name strictMode content data =
     (case ParseTemplate parse (NewStrictTemplate name strictMode) content of
        Inl e \<Rightarrow> Inl e
      | Inr st \<Rightarrow> ExecuteTemplate execute st data)"

section \<open>The specification's own words\<close>

text \<open>
  The definitions of this section are not taken from the code: they spell out the words
  of the specification, to be compared with the code's functions.
\<close>

text \<open>Splitting on one character, without \<^const>\<open>Index\<close>.\<close>

fun splitOn :: "char \<Rightarrow> string \<Rightarrow> string list" where
  "splitOn d [] = [[]]"
| "splitOn d (c # cs) =
     (if c = d then [] # splitOn d cs
      else case splitOn d cs of [] \<Rightarrow> [[c]] | p # ps \<Rightarrow> (c # p) # ps)"

text \<open>Upper-casing the first character, a rune, of a segment.\<close>

definition capitalize :: "(int \<Rightarrow> int) \<Rightarrow> string \<Rightarrow> string" where
  "capitalize upperTable p =
     (if p = [] then []
      else AppendRune (unicodeToUpper upperTable (fst (DecodeRuneInString p)))
           @ drop (snd (DecodeRuneInString p)) p)"

text \<open>
  The camelCase transform as the specification words it: lower-case the whole key, split
  on the underscore, keep the first segment, capitalise every later one (an empty segment
  contributes nothing), and concatenate.
\<close>

definition camel_spec :: "(int \<Rightarrow> int) \<Rightarrow> (int \<Rightarrow> int) \<Rightarrow> string \<Rightarrow> string" where
  "camel_spec lowerTable upperTable s =
     (case splitOn (CHR ''_'') (stringsToLower lowerTable s) of
        [] \<Rightarrow> []
      | p # ps \<Rightarrow> p @ concat (map (capitalize upperTable) ps))"

text \<open>
  ``Case-insensitive'': a value equals a pattern of lower-case ASCII letters up to the case
  of its letters when each character is the pattern's letter or its upper-case form.
\<close>

definition sameLetter :: "char \<Rightarrow> char \<Rightarrow> bool" where
  "sameLetter c l = (c = l \<or> c = upperByte l)"

definition equalsIgnoreCase :: "string \<Rightarrow> string \<Rightarrow> bool" where
  "equalsIgnoreCase value pattern = list_all2 sameLetter value pattern"

definition isLower :: "char \<Rightarrow> bool" where
  "isLower l = (let n = (of_char l :: nat) in 97 \<le> n \<and> n \<le> 122)"

text \<open>
  Reading a tree along a path of keys: the value stored at the path, if every key before
  the last leads to a string-keyed map.  The empty path is the tree itself.
\<close>

fun lookupPath :: "tree \<Rightarrow> string list \<Rightarrow> val option" where
  "lookupPath t [] = Some (VMap t)"
| "lookupPath t (k # ks) =
     (case map_of t k of
        None \<Rightarrow> None
      | Some v \<Rightarrow> (if ks = [] then Some v else (case v of VMap t' \<Rightarrow> lookupPath t' ks | _ \<Rightarrow> None)))"

text \<open>The keys of the tree node at a path, and the leaf (a value that is not a tree) at a path.\<close>

definition keysAt :: "tree \<Rightarrow> string list \<Rightarrow> string set" where
  "keysAt t p = (case lookupPath t p of Some (VMap m) \<Rightarrow> fst ` set m | _ \<Rightarrow> {})"

definition leafAt :: "tree \<Rightarrow> string list \<Rightarrow> val option" where
  "leafAt t p = (case lookupPath t p of Some v \<Rightarrow> if isMap v then None else Some v | None \<Rightarrow> None)"

text \<open>
  Two trees are the same map when, at every path, they have the same keys and the same
  leaf.  The order of the entries of a tree plays no part in it; leaves are compared as
  values of the model.
\<close>

definition sameTree :: "tree \<Rightarrow> tree \<Rightarrow> bool" where
  "sameTree s t \<longleftrightarrow> (\<forall>p. keysAt s p = keysAt t p \<and> leafAt s p = leafAt t p)"

text \<open>A scalar of the data model: a string, a boolean, an integer or a floating-point number.\<close>

fun isScalar :: "val \<Rightarrow> bool" where
  "isScalar (VBool b) = True"
| "isScalar (VInt i) = True"
| "isScalar (VFloat f) = True"
| "isScalar (VStr s) = True"
| "isScalar _ = False"

text \<open>Keys are unique per level, at every level.\<close>

fun wfTree :: "tree \<Rightarrow> bool" where
  "wfTree [] = True"
| "wfTree ((k, v) # t) =
     (k \<notin> fst ` set t \<and> (case v of VMap m \<Rightarrow> wfTree m | _ \<Rightarrow> True) \<and> wfTree t)"

text \<open>
  Two trees with disjoint leaf paths at every nesting level: a key that both define holds a
  tree in both, and these two trees are disjoint in the same sense.
\<close>

fun disjointTrees :: "tree \<Rightarrow> tree \<Rightarrow> bool" where
  "disjointTrees a [] = True"
| "disjointTrees a ((k, v) # b) =
     ((case map_of a k of
         None \<Rightarrow> True
       | Some (VMap a') \<Rightarrow> (case v of VMap b' \<Rightarrow> disjointTrees a' b' | _ \<Rightarrow> False)
       | Some _ \<Rightarrow> False)
      \<and> disjointTrees a b)"

text \<open>
  The trimmed, non-empty comma-separated segments of all input strings, in order; the key
  of a segment (the text before its first \<^verbatim>\<open>=\<close>, trimmed), its value (the text after,
  trimmed) and its dotted path.
\<close>

definition segmentsOf :: "string list \<Rightarrow> string list" where
  "segmentsOf setValues =
     filter (\<lambda>p. p \<noteq> []) (map TrimSpace (concat (map (\<lambda>setValue. Split setValue '','') setValues)))"

definition keyOf :: "string \<Rightarrow> string" where
  "keyOf seg = TrimSpace (takeWhile (\<lambda>c. c \<noteq> CHR ''='') seg)"

definition valueOf :: "string \<Rightarrow> string" where
  "valueOf seg = TrimSpace (tl (dropWhile (\<lambda>c. c \<noteq> CHR ''='') seg))"

definition pathOf :: "string \<Rightarrow> string list" where
  "pathOf seg = splitOn (CHR ''.'') (keyOf seg)"

text \<open>
  A path is blocked in a tree when one of its intermediate segments (a proper, non-empty
  prefix of the path) already holds a value that is not a tree.
\<close>

definition blocked :: "tree \<Rightarrow> string list \<Rightarrow> bool" where
  "blocked t ks =
     list_ex (\<lambda>n. case lookupPath t (take n ks) of Some v \<Rightarrow> \<not> isMap v | None \<Rightarrow> False)
       [1..<length ks]"

text \<open>The tree built so far: the pairs of the segments written one after the other, from
  a starting tree.\<close>

fun buildTree :: "(string \<Rightarrow> 64 word option) \<Rightarrow> tree \<Rightarrow> string list \<Rightarrow> error + tree" where
  "buildTree pf t [] = Inr t"
| "buildTree pf t (seg # segs) =
     (case parsePair pf t seg of Inl e \<Rightarrow> Inl e | Inr t' \<Rightarrow> buildTree pf t' segs)"

section \<open>Notions used in the proofs\<close>

text \<open>The value that one iteration of the loop of \<^const>\<open>deepMerge\<close> stores under the key,
  from the value found there before and the value of the source.\<close>

definition mergeEntry :: "val option \<Rightarrow> val \<Rightarrow> val" where
  "mergeEntry old v =
     (case v of
        VMap srcMap \<Rightarrow>
          (case asMap old of
             Some dstMap \<Rightarrow> VMap (deepMerge dstMap srcMap)
           | None \<Rightarrow> VMap (deepMerge [] srcMap))
      | _ \<Rightarrow> v)"

text \<open>
  While \<^verbatim>\<open>MergeValues\<close> runs on a store \<open>h0\<close>: the objects of \<open>h0\<close> are as they were, and
  every object made since is a string-keyed map whose map references lead to objects made
  since.  A recursive call is good when, started in such a store on a new destination and
  a source tree of \<open>h0\<close>, it returns such a store.
\<close>

definition newPart :: "nat \<Rightarrow> store \<Rightarrow> bool" where
  "newPart n0 h \<longleftrightarrow>
     (\<forall>a. n0 \<le> a \<and> a < length h \<longrightarrow>
        (\<exists>es. entriesAt h a = Some es \<and> (\<forall>k b. (k, RMap b) \<in> set es \<longrightarrow> n0 \<le> b \<and> b < length h)))"

definition inv :: "store \<Rightarrow> store \<Rightarrow> bool" where
  "inv h0 h \<longleftrightarrow> length h0 \<le> length h \<and> take (length h0) h = h0 \<and> newPart (length h0) h"

definition goodRec :: "store \<Rightarrow> nat \<Rightarrow> (store \<Rightarrow> nat \<Rightarrow> nat \<Rightarrow> store option) \<Rightarrow> bool" where
  "goodRec h0 n deepMergeRec \<longleftrightarrow>
     (\<forall>h d s. inv h0 h \<and> length h0 \<le> d \<and> d < length h \<and> depthOK n h0 s \<longrightarrow>
        (\<exists>h'. deepMergeRec h d s = Some h' \<and> inv h0 h' \<and> length h \<le> length h'))"

section \<open>Sample inputs\<close>

text \<open>
  A float parse that knows \<^verbatim>\<open>3.14\<close> (bit pattern \<open>0x40091EB851EB851F\<close>), \<^verbatim>\<open>1e3\<close> and
  \<^verbatim>\<open>2.0\<close>, and rejects everything else; it is used at these and at strings that are no
  numbers only.
\<close>

definition parseFloatSample :: "string \<Rightarrow> 64 word option" where
  "parseFloatSample s =
     (if s = ''3.14'' then Some 0x40091EB851EB851F
      else if s = ''1e3'' then Some 0x408F400000000000
      else if s = ''2.0'' then Some 0x4000000000000000
      else None)"

text \<open>
  The entries of the Unicode case tables for U+00C9 and U+00E9, the capital and the small
  e with acute accent.  The samples leave every other rune as it is; they are applied to
  these two runes and to U+00C3, a capital letter, which is its own upper case.
\<close>

definition lowerTableSample :: "int \<Rightarrow> int" where
  "lowerTableSample r = (if r = 0xC9 then 0xE9 else r)"

definition upperTableSample :: "int \<Rightarrow> int" where
  "upperTableSample r = (if r = 0xE9 then 0xC9 else r)"

text \<open>
  What \<^verbatim>\<open>text/template\<close> does with the template \<^verbatim>\<open>Hello {{.name}}!\<close> on a string-keyed
  map, in its two modes: with the key present it prints the string; without it, the
  default prints \<^verbatim>\<open><no value>\<close> and \<^verbatim>\<open>missingkey=error\<close> fails with the message
  \<^verbatim>\<open>template: NAME:1:8: executing "NAME" at <.name>: map has no entry for key "name"\<close>,
  the second \<^verbatim>\<open>NAME\<close> quoted as \<^verbatim>\<open>%q\<close> does for printable ASCII.  Nothing else is
  covered by this sample.
\<close>

definition quoteASCII :: "string \<Rightarrow> string" where
  "quoteASCII s =
     [CHR 0x22] @ concat (map (\<lambda>c. if c = CHR 0x22 \<or> c = CHR 0x5C then [CHR 0x5C, c] else [c]) s)
       @ [CHR 0x22]"

definition parseHello :: "string \<Rightarrow> string + unit" where
  "parseHello content =
     (if content = ''Hello {{.name}}!'' then Inr () else Inl ''not covered by the sample'')"

definition executeHello :: "unit Template \<Rightarrow> val \<Rightarrow> string + string" where
  "executeHello t data =
     (case (parseTree t, data) of
        (Some _, VMap m) \<Rightarrow>
          (case map_of m ''name'' of
             Some (VStr v) \<Rightarrow> Inr (''Hello '' @ v @ ''!'')
           | Some _ \<Rightarrow> Inl ''not covered by the sample''
           | None \<Rightarrow>
               if missingkeyError t
               then Inl (''template: '' @ tname t @ '':1:8: executing '' @ quoteASCII (tname t)
                         @ '' at <.name>: map has no entry for key '' @ quoteASCII ''name'')
               else Inr ''Hello <no value>!'')
      | _ \<Rightarrow> Inl ''not covered by the sample'')"

text \<open>
  Two stores.  In the first, the file tree (address 0) holds a nested mapping with
  interface-typed keys and a slice whose element is a string-keyed map; the other three
  trees (4, 5, 6) are empty.  In the second, the file tree (0) and the override tree (4)
  both hold a tree at \<^verbatim>\<open>db\<close>.
\<close>

definition hShared :: store where
  "hShared =
     [OMap [(''app'', RIMap 1), (''items'', RSlice 2)],
      OIMap [(RStr ''name'', RStr ''x'')],
      OSlice [RMap 3],
      OMap [(''host'', RStr ''localhost'')],
      OMap [], OMap [], OMap []]"

definition hNested :: store where
  "hNested =
     [OMap [(''db'', RMap 1), (''items'', RSlice 2)],
      OMap [(''host'', RStr ''localhost'')],
      OSlice [],
      OMap [],
      OMap [(''db'', RMap 5)],
      OMap [(''port'', RInt 5432)],
      OMap []]"

section \<open>Auxiliary facts\<close>

lemma Split_nonempty: "Split s sep \<noteq> []"
  by (subst Split.simps) (simp split: option.splits)

subsection \<open>Splitting\<close>

lemma splitOn_nonempty: "splitOn d s \<noteq> []"
  by (induction s) (auto split: list.splits)

lemma Split_single: "Split s [d] = splitOn d s"
proof (induction s)
  case Nil
  show ?case by (subst Split.simps) simp
next
  case (Cons c cs)
  show ?case
  proof (cases "c = d")
    case True
    then show ?thesis using Cons.IH by (subst Split.simps) simp
  next
    case False
    show ?thesis
    proof (cases "Index cs [d]")
      case None
      then have "Split cs [d] = [cs]" by (subst Split.simps) simp
      with Cons.IH have "splitOn d cs = [cs]" by simp
      with None False show ?thesis by (subst Split.simps) simp
    next
      case (Some k)
      then have "Split cs [d] = take k cs # Split (drop (k + 1) cs) [d]"
        by (subst Split.simps) simp
      with Cons.IH have "splitOn d cs = take k cs # Split (drop (k + 1) cs) [d]" by simp
      with Some False show ?thesis by (subst Split.simps) simp
    qed
  qed
qed

lemma Split_parts_subset: "p \<in> set (Split s sep) \<Longrightarrow> set p \<subseteq> set s"
proof (induction s sep arbitrary: p rule: Split.induct)
  case (1 s sep)
  show ?case
  proof (cases "sep = []")
    case True
    with "1.prems" show ?thesis by (subst (asm) Split.simps) simp
  next
    case False
    show ?thesis
    proof (cases "Index s sep")
      case None
      with False "1.prems" show ?thesis by (subst (asm) Split.simps) simp
    next
      case (Some m)
      with False "1.prems" have "p = take m s \<or> p \<in> set (Split (drop (m + length sep) s) sep)"
        by (subst (asm) Split.simps) simp
      then show ?thesis
      proof
        assume "p = take m s"
        then show ?thesis by (auto dest: in_set_takeD)
      next
        assume "p \<in> set (Split (drop (m + length sep) s) sep)"
        with "1.IH" [OF False Some] have "set p \<subseteq> set (drop (m + length sep) s)" .
        then show ?thesis by (auto dest: in_set_dropD)
      qed
    qed
  qed
qed

subsection \<open>The camelCase loop\<close>

lemma camelLoop_concat:
  "camelLoop upperTable acc ps =
     acc @ concat (map (\<lambda>p. if length p > 0
                              then stringsToUpper upperTable (string_of_byte (hd p)) @ tl p
                              else []) ps)"
  by (induction ps arbitrary: acc) simp_all

lemma of_char_int: "(of_char c :: int) = int (of_char c)"
  by (simp add: of_nat_of_char)

lemma DecodeRuneInString_ascii: "is_ascii c \<Longrightarrow> DecodeRuneInString (c # cs) = (of_char c, 1)"
  by (simp add: DecodeRuneInString_def is_ascii_def of_char_int)

lemma upperByte_rune:
  assumes "is_ascii c"
  shows "AppendRune (unicodeToUpper upperTable (of_char c)) = [upperByte c]"
proof -
  let ?n = "of_char c :: nat"
  from assms have n: "?n < 128" by (simp add: is_ascii_def)
  show ?thesis
  proof (cases "97 \<le> ?n \<and> ?n \<le> 122")
    case True
    then have "unicodeToUpper upperTable (of_char c) = int (?n - 32)"
      by (simp add: unicodeToUpper_def of_char_int)
    moreover have "int (?n - 32) mod 2 ^ 32 = int (?n - 32)" using n by simp
    moreover have "char_of (int (?n - 32)) = char_of (?n - 32)" by (rule char_of_nat)
    ultimately show ?thesis using True n by (simp add: AppendRune_def upperByte_def Let_def)
  next
    case False
    with n have "unicodeToUpper upperTable (of_char c) = int ?n"
      by (auto simp: unicodeToUpper_def of_char_int)
    moreover have "int ?n mod 2 ^ 32 = int ?n" using n by simp
    moreover have "char_of (int ?n) = c" by simp
    ultimately show ?thesis using False n by (auto simp: AppendRune_def upperByte_def Let_def)
  qed
qed

lemma capitalize_ascii_head:
  assumes "p = [] \<or> is_ascii (hd p)"
  shows "(if length p > 0 then stringsToUpper upperTable (string_of_byte (hd p)) @ tl p else [])
           = capitalize upperTable p"
proof (cases p)
  case Nil
  then show ?thesis by (simp add: capitalize_def)
next
  case (Cons c cs)
  with assms have c: "is_ascii c" by simp
  from c have "stringsToUpper upperTable (string_of_byte c) = [upperByte c]"
    by (simp add: stringsToUpper_def string_of_byte_def is_ascii_def)
  with Cons DecodeRuneInString_ascii [OF c, of cs] upperByte_rune [OF c, of upperTable]
  show ?thesis by (simp add: capitalize_def)
qed

text \<open>
  Where every later segment of the lower-cased key is empty or starts with an ASCII byte,
  \<^const>\<open>toCamelCase\<close> is the transform of the specification, whatever the case tables.
\<close>

lemma toCamelCase_ascii_heads:
  assumes "\<forall>p\<in>set (tl (splitOn (CHR ''_'') (stringsToLower lowerTable s))). p = [] \<or> is_ascii (hd p)"
  shows "toCamelCase lowerTable upperTable s = camel_spec lowerTable upperTable s"
proof (cases "s = []")
  case True
  then show ?thesis by (simp add: toCamelCase_def camel_spec_def stringsToLower_def)
next
  case False
  obtain p0 ps where sp: "splitOn (CHR ''_'') (stringsToLower lowerTable s) = p0 # ps"
    using splitOn_nonempty by (cases "splitOn (CHR ''_'') (stringsToLower lowerTable s)") auto
  with assms have "\<forall>p\<in>set ps. p = [] \<or> is_ascii (hd p)" by simp
  then have "map (\<lambda>p. if length p > 0
                        then stringsToUpper upperTable (string_of_byte (hd p)) @ tl p
                        else []) ps
             = map (capitalize upperTable) ps"
    by (intro map_cong refl capitalize_ascii_head) simp
  then have "camelLoop upperTable p0 ps = p0 @ concat (map (capitalize upperTable) ps)"
    by (simp only: camelLoop_concat)
  with sp False show ?thesis
    by (simp add: toCamelCase_def camel_spec_def Split_single)
qed

subsection \<open>Case mapping\<close>

lemma lowerByte_eq_iff:
  assumes "isLower l"
  shows "lowerByte c = l \<longleftrightarrow> sameLetter c l"
proof
  assume h: "lowerByte c = l"
  show "sameLetter c l"
  proof (cases "65 \<le> (of_char c :: nat) \<and> (of_char c :: nat) \<le> 90")
    case True
    with h have "l = char_of ((of_char c :: nat) + 32)" by (simp add: lowerByte_def)
    then have "(of_char l :: nat) = of_char c + 32" using True by simp
    then have "upperByte l = char_of (of_char c :: nat)" using True
      by (simp add: upperByte_def)
    then show ?thesis by (simp add: sameLetter_def)
  next
    case False
    with h show ?thesis by (auto simp: lowerByte_def sameLetter_def Let_def)
  qed
next
  assume "sameLetter c l"
  then consider "c = l" | "c = upperByte l" by (auto simp: sameLetter_def)
  then show "lowerByte c = l"
  proof cases
    case 1
    with assms show ?thesis by (auto simp: lowerByte_def isLower_def Let_def)
  next
    case 2
    from assms have b: "97 \<le> (of_char l :: nat)" "(of_char l :: nat) \<le> 122"
      by (simp_all add: isLower_def Let_def)
    with 2 have "c = char_of ((of_char l :: nat) - 32)"
      by (simp add: upperByte_def Let_def)
    with b have e: "(of_char c :: nat) = of_char l - 32" by simp
    from b have "65 \<le> (of_char l :: nat) - 32" "(of_char l :: nat) - 32 \<le> 90"
      "(of_char l :: nat) - 32 + 32 = of_char l" by arith+
    with e have "lowerByte c = char_of (of_char l :: nat)"
      by (simp add: lowerByte_def Let_def)
    then show ?thesis by simp
  qed
qed

lemma ToLower_eq_iff:
  "list_all isLower t \<Longrightarrow> ToLower v = t \<longleftrightarrow> equalsIgnoreCase v t"
proof (induction t arbitrary: v)
  case Nil
  then show ?case by (simp add: ToLower_def equalsIgnoreCase_def)
next
  case (Cons l t)
  show ?case
  proof (cases v)
    case Nil
    then show ?thesis by (simp add: ToLower_def equalsIgnoreCase_def)
  next
    case (Cons c cs)
    from Cons.prems have "isLower l" "list_all isLower t" by simp_all
    with Cons.IH [of cs] lowerByte_eq_iff [of l c] Cons show ?thesis
      by (simp add: ToLower_def equalsIgnoreCase_def)
  qed
qed

lemma ToLower_true: "ToLower v = ''true'' \<longleftrightarrow> equalsIgnoreCase v ''true''"
  by (rule ToLower_eq_iff) (simp add: isLower_def)

lemma ToLower_false: "ToLower v = ''false'' \<longleftrightarrow> equalsIgnoreCase v ''false''"
  by (rule ToLower_eq_iff) (simp add: isLower_def)

subsection \<open>The merge, key by key\<close>

lemma deepMerge_step:
  "deepMerge dst ((k, v) # src) = deepMerge (AList.update k (mergeEntry (map_of dst k) v) dst) src"
  by (cases v) (simp_all add: mergeEntry_def split: option.splits)

lemma deepMerge_map_of:
  "distinct (map fst src) \<Longrightarrow>
   map_of (deepMerge dst src) k =
     (case map_of src k of None \<Rightarrow> map_of dst k | Some v \<Rightarrow> Some (mergeEntry (map_of dst k) v))"
proof (induction src arbitrary: dst)
  case Nil
  then show ?case by simp
next
  case (Cons e src)
  obtain k' v' where e: "e = (k', v')" by (cases e)
  from Cons.prems e have d: "distinct (map fst src)" and n: "k' \<notin> fst ` set src" by auto
  from n have none: "map_of src k' = None" by (simp add: map_of_eq_None_iff)
  show ?case
    unfolding e deepMerge_step Cons.IH [OF d]
    using none by (auto simp: update_conv' split: option.splits)
qed

lemma deepMerge_at_Some:
  "distinct (map fst src) \<Longrightarrow> map_of src k = Some v \<Longrightarrow>
     map_of (deepMerge dst src) k = Some (mergeEntry (map_of dst k) v)"
  by (simp add: deepMerge_map_of)

lemma deepMerge_at_None:
  "distinct (map fst src) \<Longrightarrow> map_of src k = None \<Longrightarrow>
     map_of (deepMerge dst src) k = map_of dst k"
  by (simp add: deepMerge_map_of)

lemma deepMerge_keys: "fst ` set (deepMerge dst src) = fst ` set dst \<union> fst ` set src"
proof (induction src arbitrary: dst)
  case Nil
  then show ?case by simp
next
  case (Cons e src)
  obtain k' v' where e: "e = (k', v')" by (cases e)
  show ?case unfolding e deepMerge_step Cons.IH by (auto simp: dom_update)
qed

lemma mergeEntry_simps:
  "\<not> isMap v \<Longrightarrow> mergeEntry old v = v"
  "mergeEntry old (VMap sm) = (case asMap old of Some dm \<Rightarrow> VMap (deepMerge dm sm) | None \<Rightarrow> VMap (deepMerge [] sm))"
  by (cases v; simp add: mergeEntry_def)+

lemma mergeEntry_asMap: "asMap old = asMap old' \<Longrightarrow> mergeEntry old v = mergeEntry old' v"
  by (cases v) (simp_all add: mergeEntry_def)

lemma isScalar_not_isMap: "isScalar v \<Longrightarrow> \<not> isMap v"
  by (cases v) simp_all

lemma deepMerge_indep_asMap:
  assumes "distinct (map fst src)" and "asMap (map_of d k) = asMap (map_of d' k)"
  shows "asMap (map_of (deepMerge d src) k) = asMap (map_of (deepMerge d' src) k)"
proof (cases "map_of src k")
  case None
  with assms show ?thesis by (simp add: deepMerge_at_None)
next
  case (Some v)
  with assms show ?thesis by (simp add: deepMerge_at_Some mergeEntry_asMap [OF assms(2)])
qed

lemma deepMerge_indep:
  assumes "distinct (map fst src)" and "asMap (map_of d k) = asMap (map_of d' k)"
    and "map_of src k = None \<Longrightarrow> map_of d k = map_of d' k"
  shows "map_of (deepMerge d src) k = map_of (deepMerge d' src) k"
proof (cases "map_of src k")
  case None
  with assms show ?thesis by (simp add: deepMerge_at_None)
next
  case (Some v)
  with assms show ?thesis by (simp add: deepMerge_at_Some mergeEntry_asMap [OF assms(2)])
qed

subsection \<open>The merge, path by path\<close>

lemma wfTree_distinct: "wfTree t \<Longrightarrow> distinct (map fst t)"
  by (induction t rule: wfTree.induct) auto

lemma wfTree_sub: "wfTree t \<Longrightarrow> map_of t k = Some (VMap m) \<Longrightarrow> wfTree m"
  by (induction t rule: wfTree.induct) (auto split: if_splits)

lemma update_fresh: "k \<notin> fst ` set al \<Longrightarrow> AList.update k v al = al @ [(k, v)]"
  by (induction al) auto

lemma deepMerge_fresh:
  "wfTree b \<Longrightarrow> fst ` set dst \<inter> fst ` set b = {} \<Longrightarrow> deepMerge dst b = dst @ b"
proof (induction dst b rule: deepMerge.induct)
  case (1 dst)
  then show ?case by simp
next
  case (2 dst k v src)
  from "2.prems" have kd: "k \<notin> fst ` set dst" and ks: "k \<notin> fst ` set src"
    and wsrc: "wfTree src" by auto
  from kd have none: "map_of dst k = None" by (simp add: map_of_eq_None_iff)
  have ent: "mergeEntry None v = v"
  proof (cases v)
    case (VMap m)
    with "2.prems" have "wfTree m" by simp
    moreover have "asMap (map_of dst k) = None" using none by simp
    ultimately have "deepMerge [] m = [] @ m" using "2.IH"(1) [OF VMap] by simp
    with VMap show ?thesis by (simp add: mergeEntry_def)
  qed (simp_all add: mergeEntry_def)
  have upd: "(case v of
         VMap srcMap \<Rightarrow>
           (case asMap (map_of dst k) of
             None \<Rightarrow> AList.update k (VMap (deepMerge [] srcMap)) dst
           | Some dstMap \<Rightarrow> AList.update k (VMap (deepMerge dstMap srcMap)) dst)
         | _ \<Rightarrow> AList.update k v dst) = dst @ [(k, v)]"
    using ent none update_fresh [OF kd, of v]
    by (cases v) (simp_all add: mergeEntry_def)
  have "fst ` set (dst @ [(k, v)]) \<inter> fst ` set src = {}"
    using "2.prems" ks by auto
  with "2.IH"(3) wsrc have "deepMerge (dst @ [(k, v)]) src = (dst @ [(k, v)]) @ src"
    unfolding upd by simp
  then show ?case by (simp add: upd)
qed

lemma deepMerge_copy: "wfTree b \<Longrightarrow> deepMerge [] b = b"
  using deepMerge_fresh [of b "[]"] by simp

lemma disjointTrees_entry:
  "disjointTrees a b \<Longrightarrow> map_of b k = Some v \<Longrightarrow>
     (case map_of a k of
        None \<Rightarrow> True
      | Some (VMap a') \<Rightarrow> (case v of VMap b' \<Rightarrow> disjointTrees a' b' | _ \<Rightarrow> False)
      | Some _ \<Rightarrow> False)"
  by (induction a b rule: disjointTrees.induct) (auto split: if_splits)

lemma deepMerge_lookupPath:
  "wfTree b \<Longrightarrow> disjointTrees a b \<Longrightarrow>
   lookupPath (deepMerge a b) p =
     (case lookupPath a p of
        None \<Rightarrow> lookupPath b p
      | Some (VMap a') \<Rightarrow>
          (case lookupPath b p of
             Some (VMap b') \<Rightarrow> Some (VMap (deepMerge a' b'))
           | _ \<Rightarrow> Some (VMap a'))
      | Some v \<Rightarrow> Some v)"
proof (induction p arbitrary: a b)
  case Nil
  then show ?case by simp
next
  case (Cons k ks)
  note d = wfTree_distinct [OF Cons.prems(1)]
  show ?case
  proof (cases "map_of b k")
    case None
    then show ?thesis
      by (simp add: deepMerge_map_of [OF d] split: option.splits val.splits)
  next
    case (Some v)
    note ent = disjointTrees_entry [OF Cons.prems(2) Some]
    show ?thesis
    proof (cases "map_of a k")
      case None
      have "mergeEntry None v = v"
      proof (cases v)
        case (VMap m)
        with Cons.prems(1) Some have "wfTree m" by (auto dest: wfTree_sub)
        with VMap show ?thesis by (simp add: mergeEntry_def deepMerge_copy)
      qed (simp_all add: mergeEntry_def)
      with None Some show ?thesis
        by (simp add: deepMerge_map_of [OF d])
    next
      case (Some u)
      with ent obtain a' b' where u: "u = VMap a'" and v: "v = VMap b'"
        and dis: "disjointTrees a' b'"
        by (auto split: val.splits)
      from Cons.prems(1) \<open>map_of b k = Some v\<close> v have wb: "wfTree b'"
        by (auto dest: wfTree_sub)
      have "map_of (deepMerge a b) k = Some (VMap (deepMerge a' b'))"
        using Some u v \<open>map_of b k = Some v\<close>
        by (simp add: deepMerge_map_of [OF d] mergeEntry_def)
      note m = this
      show ?thesis
      proof (cases "ks = []")
        case True
        with m Some u v \<open>map_of b k = Some v\<close> show ?thesis by simp
      next
        case False
        then have la: "lookupPath a (k # ks) = lookupPath a' ks"
          and lb: "lookupPath b (k # ks) = lookupPath b' ks"
          and lm: "lookupPath (deepMerge a b) (k # ks) = lookupPath (deepMerge a' b') ks"
          using m Some u v \<open>map_of b k = Some v\<close> by simp_all
        show ?thesis unfolding la lb lm by (rule Cons.IH [OF wb dis])
      qed
    qed
  qed
qed

lemma disjointTrees_lookupPath:
  "disjointTrees a b \<Longrightarrow> lookupPath a p = Some u \<Longrightarrow> lookupPath b p = Some v \<Longrightarrow>
     isMap u \<and> isMap v"
proof (induction p arbitrary: a b)
  case Nil
  then show ?case by auto
next
  case (Cons k ks)
  from Cons.prems(2) obtain x where x: "map_of a k = Some x" by (auto split: option.splits)
  from Cons.prems(3) obtain y where y: "map_of b k = Some y" by (auto split: option.splits)
  from disjointTrees_entry [OF Cons.prems(1) y] x obtain a' b'
    where xy: "x = VMap a'" "y = VMap b'" and dis: "disjointTrees a' b'"
    by (auto split: val.splits)
  show ?case
  proof (cases "ks = []")
    case True
    with Cons.prems x y xy show ?thesis by auto
  next
    case False
    with Cons.prems x y xy have "lookupPath a' ks = Some u" "lookupPath b' ks = Some v" by simp_all
    with Cons.IH [OF dis] show ?thesis by simp
  qed
qed

lemma merge_keysAt:
  assumes "wfTree b" "disjointTrees a b"
  shows "keysAt (deepMerge a b) p = keysAt a p \<union> keysAt b p"
proof (cases "lookupPath a p")
  case None
  then show ?thesis
    by (simp add: keysAt_def deepMerge_lookupPath [OF assms])
next
  case (Some u)
  show ?thesis
  proof (cases "lookupPath b p")
    case None
    with Some show ?thesis
      by (cases u) (simp_all add: keysAt_def deepMerge_lookupPath [OF assms])
  next
    case (Some v)
    from disjointTrees_lookupPath [OF assms(2) \<open>lookupPath a p = Some u\<close> Some]
    obtain a' b' where "u = VMap a'" "v = VMap b'" by (cases u; cases v) auto
    with Some \<open>lookupPath a p = Some u\<close> show ?thesis
      by (simp add: keysAt_def deepMerge_lookupPath [OF assms] deepMerge_keys)
  qed
qed

lemma merge_leafAt:
  assumes "wfTree b" "disjointTrees a b"
  shows "leafAt (deepMerge a b) p = (case leafAt a p of Some v \<Rightarrow> Some v | None \<Rightarrow> leafAt b p)"
proof (cases "lookupPath a p")
  case None
  then show ?thesis
    by (simp add: leafAt_def deepMerge_lookupPath [OF assms])
next
  case (Some u)
  show ?thesis
  proof (cases "lookupPath b p")
    case None
    with Some show ?thesis
      by (cases u) (simp_all add: leafAt_def deepMerge_lookupPath [OF assms])
  next
    case (Some v)
    from disjointTrees_lookupPath [OF assms(2) \<open>lookupPath a p = Some u\<close> Some]
    obtain a' b' where "u = VMap a'" "v = VMap b'" by (cases u; cases v) auto
    with Some \<open>lookupPath a p = Some u\<close> show ?thesis
      by (simp add: leafAt_def deepMerge_lookupPath [OF assms])
  qed
qed

subsection \<open>The merge in the two orders\<close>

lemma lookupPath_entry:
  "map_of t k = Some (VMap m) \<Longrightarrow> lookupPath t (k # ks) = lookupPath m ks"
  by (cases ks) simp_all

lemma lookupPath_leaf:
  "map_of t k = Some v \<Longrightarrow> \<not> isMap v \<Longrightarrow> lookupPath t (k # ks) = (if ks = [] then Some v else None)"
  by (cases v) simp_all

lemma lookupPath_absent: "map_of t k = None \<Longrightarrow> lookupPath t (k # ks) = None"
  by simp

lemma lookupPath_same_entry:
  "map_of s k = map_of t k \<Longrightarrow> lookupPath s (k # ks) = lookupPath t (k # ks)"
  by simp

lemma mergeEntry_copy:
  assumes "\<And>m. v = VMap m \<Longrightarrow> wfTree m" and "asMap old = None"
  shows "mergeEntry old v = v"
proof (cases v)
  case (VMap m)
  with assms show ?thesis by (simp add: mergeEntry_def deepMerge_copy)
qed (simp_all add: mergeEntry_def)

lemma asMap_Some_iff: "asMap (Some v) = Some m \<longleftrightarrow> v = VMap m"
  by (cases v) auto

lemma asMap_None_iff: "asMap (Some v) = None \<longleftrightarrow> \<not> isMap v"
  by (cases v) auto

lemma merge_at_conflict:
  assumes "wfTree A" "wfTree B"
    and "lookupPath A p = Some a" "lookupPath B p = Some b" "\<not> (isMap a \<and> isMap b)"
  shows "lookupPath (deepMerge A B) p = Some b"
  using assms
proof (induction p arbitrary: A B)
  case Nil
  then show ?case by auto
next
  case (Cons k ks)
  note d = wfTree_distinct [OF Cons.prems(2)]
  from Cons.prems(3) obtain u where u: "map_of A k = Some u" by (auto split: option.splits)
  from Cons.prems(4) obtain v where v: "map_of B k = Some v" by (auto split: option.splits)
  have m: "map_of (deepMerge A B) k = Some (mergeEntry (Some u) v)"
    using deepMerge_at_Some [OF d v, of A] u by simp
  show ?case
  proof (cases "ks = []")
    case True
    with Cons.prems u v have ab: "a = u" "b = v" by simp_all
    show ?thesis
    proof (cases "isMap v")
      case False
      then have "mergeEntry (Some u) v = v" by (simp add: mergeEntry_simps(1))
      with m True ab show ?thesis by simp
    next
      case True
      with Cons.prems(5) ab have "\<not> isMap u" by simp
      then have "asMap (Some u) = None" by (simp add: asMap_None_iff)
      moreover have "wfTree m'" if "v = VMap m'" for m'
        using wfTree_sub [OF Cons.prems(2)] v that by simp
      ultimately have "mergeEntry (Some u) v = v" by (intro mergeEntry_copy)
      with m \<open>ks = []\<close> ab show ?thesis by simp
    qed
  next
    case False
    with Cons.prems(3) u obtain a' where a': "u = VMap a'" and la: "lookupPath a' ks = Some a"
      by (cases u) (auto split: if_splits)
    from False Cons.prems(4) v obtain b' where b': "v = VMap b'" and lb: "lookupPath b' ks = Some b"
      by (cases v) (auto split: if_splits)
    have wa: "wfTree a'" using wfTree_sub [OF Cons.prems(1)] u a' by simp
    have wb: "wfTree b'" using wfTree_sub [OF Cons.prems(2)] v b' by simp
    have "map_of (deepMerge A B) k = Some (VMap (deepMerge a' b'))"
      using m a' b' by (simp add: mergeEntry_def)
    then have "lookupPath (deepMerge A B) (k # ks) = lookupPath (deepMerge a' b') ks"
      by (rule lookupPath_entry)
    also have "\<dots> = Some b" by (rule Cons.IH [OF wa wb la lb Cons.prems(5)])
    finally show ?thesis .
  qed
qed


lemma keysAt_entry: "map_of t k = Some (VMap m) \<Longrightarrow> keysAt t (k # ks) = keysAt m ks"
  by (simp only: keysAt_def lookupPath_entry)

lemma leafAt_entry: "map_of t k = Some (VMap m) \<Longrightarrow> leafAt t (k # ks) = leafAt m ks"
  by (simp only: leafAt_def lookupPath_entry)

lemma keysAt_same_entry: "map_of s k = map_of t k \<Longrightarrow> keysAt s (k # ks) = keysAt t (k # ks)"
  by (simp add: keysAt_def)

lemma leafAt_same_entry: "map_of s k = map_of t k \<Longrightarrow> leafAt s (k # ks) = leafAt t (k # ks)"
  by (simp add: leafAt_def)

lemma keysAt_Nil: "keysAt t [] = fst ` set t"
  by (simp add: keysAt_def)

lemma leafAt_Nil: "leafAt t [] = None"
  by (simp add: leafAt_def)

lemma wfTree_entry_copy:
  assumes "wfTree t" and "map_of t k = Some v"
  shows "mergeEntry None v = v"
proof (rule mergeEntry_copy)
  fix m assume "v = VMap m"
  with assms show "wfTree m" by (auto dest: wfTree_sub)
qed simp

lemma merge_no_conflict:
  assumes "wfTree A" "wfTree B"
    and "\<And>p a b. lookupPath A p = Some a \<Longrightarrow> lookupPath B p = Some b \<Longrightarrow>
           \<not> (isMap a \<and> isMap b) \<Longrightarrow> a = b"
  shows "keysAt (deepMerge A B) p = keysAt (deepMerge B A) p
       \<and> leafAt (deepMerge A B) p = leafAt (deepMerge B A) p"
  using assms
proof (induction p arbitrary: A B)
  case Nil
  show ?case by (auto simp: keysAt_Nil leafAt_Nil deepMerge_keys)
next
  case (Cons k ks)
  note dA = wfTree_distinct [OF Cons.prems(1)] and dB = wfTree_distinct [OF Cons.prems(2)]
  note mAB = deepMerge_map_of [OF dB, of A k] and mBA = deepMerge_map_of [OF dA, of B k]
  show ?case
  proof (cases "map_of A k")
    case None
    show ?thesis
    proof (cases "map_of B k")
      case None
      with \<open>map_of A k = None\<close> mAB mBA
      have e: "map_of (deepMerge A B) k = map_of (deepMerge B A) k" by simp
      show ?thesis by (rule conjI [OF keysAt_same_entry [OF e] leafAt_same_entry [OF e]])
    next
      case (Some v)
      with \<open>map_of A k = None\<close> mAB mBA wfTree_entry_copy [OF Cons.prems(2) Some]
      have e: "map_of (deepMerge A B) k = map_of (deepMerge B A) k" by simp
      show ?thesis by (rule conjI [OF keysAt_same_entry [OF e] leafAt_same_entry [OF e]])
    qed
  next
    case (Some u)
    show ?thesis
    proof (cases "map_of B k")
      case None
      with Some mAB mBA wfTree_entry_copy [OF Cons.prems(1) Some]
      have e: "map_of (deepMerge A B) k = map_of (deepMerge B A) k" by simp
      show ?thesis by (rule conjI [OF keysAt_same_entry [OF e] leafAt_same_entry [OF e]])
    next
      case (Some v)
      show ?thesis
      proof (cases "isMap u \<and> isMap v")
        case True
        then obtain a' b' where u: "u = VMap a'" and v: "v = VMap b'"
          by (cases u; cases v) auto
        have wa: "wfTree a'" using wfTree_sub [OF Cons.prems(1)] \<open>map_of A k = Some u\<close> u by simp
        have wb: "wfTree b'" using wfTree_sub [OF Cons.prems(2)] Some v by simp
        have ag: "a = b" if "lookupPath a' q = Some a" "lookupPath b' q = Some b"
          "\<not> (isMap a \<and> isMap b)" for q a b
        proof (rule Cons.prems(3) [of "k # q"])
          show "lookupPath A (k # q) = Some a"
            using lookupPath_entry [of A k a' q] \<open>map_of A k = Some u\<close> u that(1) by simp
          show "lookupPath B (k # q) = Some b"
            using lookupPath_entry [of B k b' q] Some v that(2) by simp
          show "\<not> (isMap a \<and> isMap b)" by (rule that(3))
        qed
        have 1: "map_of (deepMerge A B) k = Some (VMap (deepMerge a' b'))"
          using mAB \<open>map_of A k = Some u\<close> Some u v by (simp add: mergeEntry_def)
        have 2: "map_of (deepMerge B A) k = Some (VMap (deepMerge b' a'))"
          using mBA \<open>map_of A k = Some u\<close> Some u v by (simp add: mergeEntry_def)
        show ?thesis
          unfolding keysAt_entry [OF 1] keysAt_entry [OF 2] leafAt_entry [OF 1] leafAt_entry [OF 2]
          by (rule Cons.IH [OF wa wb ag])
      next
        case False
        have "u = v"
        proof (rule Cons.prems(3) [of "[k]"])
          show "lookupPath A [k] = Some u" using \<open>map_of A k = Some u\<close> by simp
          show "lookupPath B [k] = Some v" using Some by simp
          show "\<not> (isMap u \<and> isMap v)" by (rule False)
        qed
        with False have n: "\<not> isMap u" "\<not> isMap v" by simp_all
        then have "mergeEntry (Some u) v = v" "mergeEntry (Some v) u = u"
          by (simp_all add: mergeEntry_simps(1))
        with mAB mBA \<open>map_of A k = Some u\<close> Some \<open>u = v\<close>
        have e: "map_of (deepMerge A B) k = map_of (deepMerge B A) k" by simp
        show ?thesis by (rule conjI [OF keysAt_same_entry [OF e] leafAt_same_entry [OF e]])
      qed
    qed
  qed
qed


lemma leafAt_single: "map_of t k = Some v \<Longrightarrow> leafAt t [k] = (if isMap v then None else Some v)"
  by (simp add: leafAt_def)

lemma sameTree_keys: "sameTree s t \<Longrightarrow> fst ` set s = fst ` set t"
proof -
  assume "sameTree s t"
  then have "keysAt s [] = keysAt t []" unfolding sameTree_def by blast
  then show ?thesis by (simp only: keysAt_Nil)
qed

lemma sameTree_cases:
  assumes "sameTree s t"
  obtains (none) "map_of s k = None" "map_of t k = None"
    | (leaf) v where "\<not> isMap v" "map_of s k = Some v" "map_of t k = Some v"
    | (tree) m m' where "map_of s k = Some (VMap m)" "map_of t k = Some (VMap m')" "sameTree m m'"
proof -
  note keys = sameTree_keys [OF assms]
  show ?thesis
  proof (cases "map_of s k")
    case None
    then have "k \<notin> fst ` set t" using keys by (simp add: map_of_eq_None_iff)
    then have "map_of t k = None" by (simp add: map_of_eq_None_iff)
    with None show ?thesis by (rule none)
  next
    case (Some u)
    then have "k \<in> fst ` set t" using keys by (metis map_of_eq_None_iff option.distinct(1))
    then obtain u' where u': "map_of t k = Some u'"
      by (metis map_of_eq_None_iff not_Some_eq)
    from assms have l: "leafAt s [k] = leafAt t [k]" by (simp add: sameTree_def)
    show ?thesis
    proof (cases "isMap u")
      case False
      with l Some u' have "u' = u"
        by (simp add: leafAt_single split: if_splits)
      with False Some u' show ?thesis by (intro leaf [of u]) simp_all
    next
      case True
      then obtain m where m: "u = VMap m" by (cases u) auto
      from True l Some u' have "isMap u'" by (simp add: leafAt_single split: if_splits)
      then obtain m' where m': "u' = VMap m'" by (cases u') auto
      have "sameTree m m'"
        unfolding sameTree_def
      proof (intro allI conjI)
        fix p
        from assms have "keysAt s (k # p) = keysAt t (k # p)" "leafAt s (k # p) = leafAt t (k # p)"
          by (simp_all add: sameTree_def)
        then show "keysAt m p = keysAt m' p" "leafAt m p = leafAt m' p"
          using keysAt_entry [of s k m p] keysAt_entry [of t k m' p]
            leafAt_entry [of s k m p] leafAt_entry [of t k m' p] Some u' m m' by simp_all
      qed
      with Some u' m m' show ?thesis by (intro tree [of m m']) simp_all
    qed
  qed
qed

lemma deepMerge_sameTree_at:
  assumes "wfTree A" "wfTree A'" "wfTree B" "wfTree B'" "sameTree A A'" "sameTree B B'"
  shows "keysAt (deepMerge A B) p = keysAt (deepMerge A' B') p
       \<and> leafAt (deepMerge A B) p = leafAt (deepMerge A' B') p"
  using assms
proof (induction p arbitrary: A A' B B')
  case Nil
  have "fst ` set A = fst ` set A'" "fst ` set B = fst ` set B'"
    by (rule sameTree_keys [OF Nil.prems(5)], rule sameTree_keys [OF Nil.prems(6)])
  then show ?case by (simp add: keysAt_Nil leafAt_Nil deepMerge_keys)
next
  case (Cons k ks)
  note dB = wfTree_distinct [OF Cons.prems(3)] and dB' = wfTree_distinct [OF Cons.prems(4)]
  note m1 = deepMerge_map_of [OF dB, of A k] and m2 = deepMerge_map_of [OF dB', of A' k]
  from Cons.prems(6) show ?case
  proof (cases rule: sameTree_cases [where k = k])
    case none
    from Cons.prems(5) show ?thesis
    proof (cases rule: sameTree_cases [where k = k])
      case none
      note anone = this
      with \<open>map_of B k = None\<close> \<open>map_of B' k = None\<close> m1 m2
      have e: "map_of (deepMerge A B) k = map_of (deepMerge A' B') k" by simp
      show ?thesis by (rule conjI [OF keysAt_same_entry [OF e] leafAt_same_entry [OF e]])
    next
      case (leaf v)
      with \<open>map_of B k = None\<close> \<open>map_of B' k = None\<close> m1 m2
      have e: "map_of (deepMerge A B) k = map_of (deepMerge A' B') k" by simp
      show ?thesis by (rule conjI [OF keysAt_same_entry [OF e] leafAt_same_entry [OF e]])
    next
      case (tree am am')
      with \<open>map_of B k = None\<close> \<open>map_of B' k = None\<close> m1 m2
      have 1: "map_of (deepMerge A B) k = Some (VMap am)"
        and 2: "map_of (deepMerge A' B') k = Some (VMap am')" by simp_all
      show ?thesis
        unfolding keysAt_entry [OF 1] keysAt_entry [OF 2] leafAt_entry [OF 1] leafAt_entry [OF 2]
        using tree(3) by (simp add: sameTree_def)
    qed
  next
    case (leaf v)
    then have "mergeEntry (map_of A k) v = v" "mergeEntry (map_of A' k) v = v"
      by (simp_all add: mergeEntry_simps(1))
    with leaf m1 m2 have e: "map_of (deepMerge A B) k = map_of (deepMerge A' B') k" by simp
    show ?thesis by (rule conjI [OF keysAt_same_entry [OF e] leafAt_same_entry [OF e]])
  next
    case (tree bm bm')
    note btree = this
    have wb: "wfTree bm" "wfTree bm'"
      using wfTree_sub [OF Cons.prems(3) tree(1)] wfTree_sub [OF Cons.prems(4) tree(2)] by simp_all
    from Cons.prems(5) show ?thesis
    proof (cases rule: sameTree_cases [where k = k])
      case (tree am am')
      have wa: "wfTree am" "wfTree am'"
        using wfTree_sub [OF Cons.prems(1) tree(1)] wfTree_sub [OF Cons.prems(2) tree(2)] by simp_all
      from btree tree m1 m2 have 1: "map_of (deepMerge A B) k = Some (VMap (deepMerge am bm))"
        and 2: "map_of (deepMerge A' B') k = Some (VMap (deepMerge am' bm'))"
        by (simp_all add: mergeEntry_def)
      show ?thesis
        unfolding keysAt_entry [OF 1] keysAt_entry [OF 2] leafAt_entry [OF 1] leafAt_entry [OF 2]
        by (rule Cons.IH [OF wa wb tree(3) btree(3)])
    next
      case none
      with btree m1 m2 wb have 1: "map_of (deepMerge A B) k = Some (VMap bm)"
        and 2: "map_of (deepMerge A' B') k = Some (VMap bm')"
        by (simp_all add: mergeEntry_def deepMerge_copy)
      show ?thesis
        unfolding keysAt_entry [OF 1] keysAt_entry [OF 2] leafAt_entry [OF 1] leafAt_entry [OF 2]
        using btree(3) by (simp add: sameTree_def)
    next
      case (leaf v)
      then have "asMap (map_of A k) = None" "asMap (map_of A' k) = None"
        by (simp_all add: asMap_None_iff)
      with btree m1 m2 wb have 1: "map_of (deepMerge A B) k = Some (VMap bm)"
        and 2: "map_of (deepMerge A' B') k = Some (VMap bm')"
        by (simp_all add: mergeEntry_def deepMerge_copy)
      show ?thesis
        unfolding keysAt_entry [OF 1] keysAt_entry [OF 2] leafAt_entry [OF 1] leafAt_entry [OF 2]
        using btree(3) by (simp add: sameTree_def)
    qed
  qed
qed


lemma sameTree_refl: "sameTree t t"
  by (simp add: sameTree_def)

lemma sameTreeI:
  assumes "\<And>k. map_of s k = map_of t k
            \<or> (\<exists>m m'. map_of s k = Some (VMap m) \<and> map_of t k = Some (VMap m') \<and> sameTree m m')"
  shows "sameTree s t"
  unfolding sameTree_def
proof (intro allI)
  fix p
  show "keysAt s p = keysAt t p \<and> leafAt s p = leafAt t p"
  proof (cases p)
    case Nil
    have "k \<in> fst ` set s \<longleftrightarrow> k \<in> fst ` set t" for k
    proof -
      have "map_of s k = None \<longleftrightarrow> map_of t k = None" using assms [of k] by auto
      then show ?thesis by (simp add: map_of_eq_None_iff)
    qed
    then have "fst ` set s = fst ` set t" by blast
    with Nil show ?thesis by (simp add: keysAt_Nil leafAt_Nil)
  next
    case (Cons k ks)
    from assms [of k] show ?thesis
    proof
      assume e: "map_of s k = map_of t k"
      show ?thesis unfolding Cons
        by (rule conjI [OF keysAt_same_entry [OF e] leafAt_same_entry [OF e]])
    next
      assume "\<exists>m m'. map_of s k = Some (VMap m) \<and> map_of t k = Some (VMap m') \<and> sameTree m m'"
      then obtain m m' where 1: "map_of s k = Some (VMap m)" and 2: "map_of t k = Some (VMap m')"
        and st: "sameTree m m'" by blast
      show ?thesis
        unfolding Cons keysAt_entry [OF 1] keysAt_entry [OF 2] leafAt_entry [OF 1] leafAt_entry [OF 2]
        using st by (simp add: sameTree_def)
    qed
  qed
qed

subsection \<open>Occurrences of a separator\<close>

lemma prefix_append_short:
  "prefix xs (ys @ zs) \<Longrightarrow> length xs \<le> length ys \<Longrightarrow> prefix xs ys"
  by (rule prefix_length_prefix [of xs "ys @ zs" ys]) simp_all

lemma Index_first:
  "sep \<noteq> [] \<Longrightarrow> \<not> Contains (u @ butlast sep) sep \<Longrightarrow> Index (u @ sep @ rest) sep = Some (length u)"
proof (induction u)
  case Nil
  then show ?case by (cases sep) simp_all
next
  case (Cons c u)
  from Cons.prems(2) have np: "\<not> prefix sep ((c # u) @ butlast sep)"
    and nc: "\<not> Contains (u @ butlast sep) sep"
    by (auto simp: Contains_def split: if_splits)
  have "\<not> prefix sep ((c # u) @ sep @ rest)"
  proof
    assume p: "prefix sep ((c # u) @ sep @ rest)"
    have "(c # u) @ sep @ rest = ((c # u) @ butlast sep) @ ([last sep] @ rest)"
      using Cons.prems(1) by simp
    then have "prefix sep (((c # u) @ butlast sep) @ ([last sep] @ rest))" using p by metis
    moreover have "length sep \<le> length ((c # u) @ butlast sep)"
      using Cons.prems(1) by (cases sep) simp_all
    ultimately have "prefix sep ((c # u) @ butlast sep)" by (rule prefix_append_short)
    with np show False by simp
  qed
  with Cons.IH [OF Cons.prems(1) nc] show ?case by simp
qed

lemma Contains_mid: "Contains (a @ s @ b) s"
proof (induction a)
  case Nil
  have "prefix s (s @ b)" by simp
  then show ?case by (cases "s @ b") (auto simp: Contains_def)
next
  case (Cons c a)
  then show ?case by (auto simp: Contains_def)
qed

lemma Index_none_last: "sep \<noteq> [] \<Longrightarrow> last sep \<notin> set s \<Longrightarrow> Index s sep = None"
proof (induction s)
  case Nil
  then show ?case by simp
next
  case (Cons c s)
  have "\<not> prefix sep (c # s)"
  proof
    assume "prefix sep (c # s)"
    then have "set sep \<subseteq> set (c # s)" by (rule set_mono_prefix)
    moreover have "last sep \<in> set sep" using Cons.prems(1) by simp
    ultimately show False using Cons.prems(2) by auto
  qed
  with Cons show ?case by simp
qed

lemma Index_single: "q \<notin> set K \<Longrightarrow> Index (K @ q # x) [q] = Some (length K)"
  by (induction K) auto

lemma prefix_same_stop:
  assumes "prefix (b @ [q]) (K @ q # post)" and "q \<notin> set b" and "q \<notin> set K"
  shows "b = K"
proof -
  from assms(1) obtain zs where e: "K @ q # post = b @ q # zs" by (auto simp: prefix_def)
  have tw: "q \<notin> set xs \<Longrightarrow> takeWhile (\<lambda>x. x \<noteq> q) (xs @ q # ys) = xs" for xs ys :: "'a list"
    by (induction xs) auto
  have "takeWhile (\<lambda>x. x \<noteq> q) (K @ q # post) = K" using assms(3) by (rule tw)
  moreover have "takeWhile (\<lambda>x. x \<noteq> q) (b @ q # zs) = b" using assms(2) by (rule tw)
  ultimately show ?thesis using e by simp
qed

lemma Index_after:
  "q \<notin> set K \<Longrightarrow> q \<notin> set b \<Longrightarrow> \<not> suffix b K \<Longrightarrow>
   Index (K @ q # post) (b @ [q]) = map_option (\<lambda>j. j + length K + 1) (Index post (b @ [q]))"
proof (induction K)
  case Nil
  then have "b \<noteq> []" by simp
  with Nil have "\<not> prefix (b @ [q]) (q # post)" by (cases b) auto
  then show ?case by (simp add: option.map_comp comp_def)
next
  case (Cons c K)
  have "\<not> prefix (b @ [q]) ((c # K) @ q # post)"
  proof
    assume "prefix (b @ [q]) ((c # K) @ q # post)"
    from prefix_same_stop [OF this Cons.prems(2) Cons.prems(1)] Cons.prems(3)
    show False by simp
  qed
  moreover from Cons.prems(3) have "\<not> suffix b K" by (auto simp: suffix_Cons)
  ultimately show ?case using Cons.IH Cons.prems(1,2)
    by (simp add: option.map_comp comp_def)
qed

lemma Split_first:
  "sep \<noteq> [] \<Longrightarrow> Index s sep = Some m \<Longrightarrow>
     Split s sep = take m s # Split (drop (m + length sep) s) sep"
  by (subst Split.simps) simp

lemma Split_none: "Index s sep = None \<Longrightarrow> Split s sep = [s]"
  by (subst Split.simps) simp

lemma Split_second_stop:
  assumes "q \<notin> set K" and "q \<notin> set b" and "\<not> suffix b K"
  shows "\<exists>x ps. Split (K @ q # post) (b @ [q]) = (K @ q # x) # ps"
proof (cases "Index post (b @ [q])")
  case None
  with Index_after [OF assms, of post] have "Index (K @ q # post) (b @ [q]) = None" by simp
  then show ?thesis by (simp add: Split_none)
next
  case (Some j)
  with Index_after [OF assms, of post]
  have "Index (K @ q # post) (b @ [q]) = Some (j + length K + 1)" by simp
  then have "Split (K @ q # post) (b @ [q])
       = take (j + length K + 1) (K @ q # post)
         # Split (drop (j + length K + 1 + length (b @ [q])) (K @ q # post)) (b @ [q])"
    by (intro Split_first) simp_all
  moreover have "take (j + length K + 1) (K @ q # post) = K @ q # take j post" by simp
  ultimately show ?thesis by simp
qed

subsection \<open>The two patterns of the missing-key message\<close>

lemma keyPattern_found:
  assumes "\<not> Contains (pre @ ''map has no entry for key '') (''key '' @ [CHR 0x22])"
    and "K \<noteq> []" and "CHR 0x22 \<notin> set K" and "\<not> suffix ''key '' K"
  shows "keyPattern (pre @ ''map has no entry for key '' @ [CHR 0x22] @ K @ [CHR 0x22] @ post) = Some K"
proof -
  let ?sep = "''key '' @ [CHR 0x22]"
  let ?u = "pre @ ''map has no entry for ''"
  let ?r = "K @ CHR 0x22 # post"
  let ?msg = "pre @ ''map has no entry for key '' @ [CHR 0x22] @ K @ [CHR 0x22] @ post"
  have msg: "?msg = ?u @ ?sep @ ?r" by simp
  have c: "Contains ?msg ''map has no entry for key''"
    using Contains_mid [of pre "''map has no entry for key''" "'' '' @ [CHR 0x22] @ K @ [CHR 0x22] @ post"]
    by simp
  have "\<not> Contains (?u @ butlast ?sep) ?sep" using assms(1) by simp
  then have "Index (?u @ ?sep @ ?r) ?sep = Some (length ?u)"
    by (intro Index_first) simp_all
  then have "Split (?u @ ?sep @ ?r) ?sep = ?u # Split ?r ?sep"
    by (subst Split_first [where m = "length ?u"]) simp_all
  moreover from Split_second_stop [of "CHR 0x22" K "''key ''" post] assms(3,4)
  obtain x ps where "Split ?r ?sep = (K @ CHR 0x22 # x) # ps" by auto
  ultimately have parts: "Split ?msg ?sep = ?u # (K @ CHR 0x22 # x) # ps"
    unfolding msg by simp
  have "Index (K @ CHR 0x22 # x) [CHR 0x22] = Some (length K)"
    using assms(3) by (rule Index_single)
  with c parts assms(2) show ?thesis
    unfolding keyPattern_def by simp
qed

lemma fieldPattern_found:
  assumes "\<not> Contains (pre @ ''can't evaluate field'') ''field ''"
    and "CHR '' '' \<notin> set F" and "\<not> suffix ''field'' F"
    and "rest = [] \<or> hd rest = CHR '' ''"
  shows "fieldPattern (pre @ ''can't evaluate field '' @ F @ rest) = Some F"
proof -
  let ?sep = "''field ''"
  let ?u = "pre @ ''can't evaluate ''"
  let ?msg = "pre @ ''can't evaluate field '' @ F @ rest"
  have msg: "?msg = ?u @ ?sep @ (F @ rest)" by simp
  have c: "Contains ?msg ''can't evaluate field''"
    using Contains_mid [of pre "''can't evaluate field''" "'' '' @ F @ rest"] by simp
  have "\<not> Contains (?u @ butlast ?sep) ?sep" using assms(1) by simp
  then have "Index (?u @ ?sep @ (F @ rest)) ?sep = Some (length ?u)"
    by (intro Index_first) simp_all
  then have first: "Split (?u @ ?sep @ (F @ rest)) ?sep = ?u # Split (F @ rest) ?sep"
    by (subst Split_first [where m = "length ?u"]) simp_all
  have "\<exists>ps qs. Split (F @ rest) ?sep = ps \<and> length ps > 0 \<and> Split (ps ! 0) '' '' = F # qs"
  proof (cases rest)
    case Nil
    have "Index F ?sep = None" using assms(2) by (intro Index_none_last) simp_all
    moreover have "Index F '' '' = None" using assms(2) by (intro Index_none_last) simp_all
    ultimately show ?thesis using Nil by (simp add: Split_none)
  next
    case (Cons c rest')
    with assms(4) have r: "rest = CHR '' '' # rest'" by simp
    from Split_second_stop [of "CHR '' ''" F "''field''" rest'] assms(2,3)
    obtain x ps where sp: "Split (F @ CHR '' '' # rest') ?sep = (F @ CHR '' '' # x) # ps" by auto
    have "Index (F @ CHR '' '' # x) '' '' = Some (length F)"
      using assms(2) by (rule Index_single)
    then have "Split (F @ CHR '' '' # x) '' '' = F # Split x '' ''"
      by (subst Split_first [where m = "length F"]) simp_all
    with sp r show ?thesis by simp
  qed
  then obtain ps qs where "Split (F @ rest) ?sep = ps" "length ps > 0" "Split (ps ! 0) '' '' = F # qs"
    by blast
  with c first show ?thesis
    unfolding fieldPattern_def msg by simp
qed

lemma keyPattern_absent: "\<not> Contains errMsg ''map has no entry for key'' \<Longrightarrow> keyPattern errMsg = None"
  by (simp add: keyPattern_def)

lemma fieldPattern_absent: "\<not> Contains errMsg ''can't evaluate field'' \<Longrightarrow> fieldPattern errMsg = None"
  by (simp add: fieldPattern_def)

text \<open>
  Rendering in the two modes, where the engine's message for the missing key has no
  \<^verbatim>\<open>key "\<close> before the phrase \<^verbatim>\<open>map has no entry for key\<close>: the variable is the key.
\<close>

lemma render_missing_key:
  assumes "parse content = Inr body"
    and "execute \<lparr>tname = name, missingkeyError = False, parseTree = Some body\<rparr> data
           = Inr (before @ ''<no value>'' @ after)"
    and "execute \<lparr>tname = name, missingkeyError = True, parseTree = Some body\<rparr> data
           = Inl (pre @ ''map has no entry for key '' @ [CHR 0x22] @ key @ [CHR 0x22])"
    and "\<not> Contains (pre @ ''map has no entry for key '') (''key '' @ [CHR 0x22])"
    and "key \<noteq> []" and "CHR 0x22 \<notin> set key" and "\<not> suffix ''key '' key"
  shows "render parse execute name False content data = Inr (before @ ''<no value>'' @ after)
       \<and> render parse execute name True content data = Inl (StrictModeError key name)"
proof -
  let ?msg = "pre @ ''map has no entry for key '' @ [CHR 0x22] @ key @ [CHR 0x22]"
  have "keyPattern ?msg = Some key"
    using keyPattern_found [OF assms(4-7), of "[]"] by simp
  then have x: "extractVariableFromError ?msg = key"
    by (simp add: extractVariableFromError_def)
  have c: "Contains ?msg ''map has no entry for key''"
    using Contains_mid [of pre "''map has no entry for key''" "'' '' @ [CHR 0x22] @ key @ [CHR 0x22]"]
    by simp
  show ?thesis
    using assms(1-3) x c
    by (simp add: render_def ParseTemplate_def NewStrictTemplate_def ExecuteTemplate_def)
qed

subsection \<open>Override parsing, segment by segment\<close>

lemma parsePairs_buildTree:
  "parsePairs pf t raw = buildTree pf t (filter (\<lambda>p. p \<noteq> []) (map TrimSpace raw))"
  by (induction raw arbitrary: t) (simp_all add: Let_def split: sum.splits)

lemma buildTree_append:
  "buildTree pf t (xs @ ys) =
     (case buildTree pf t xs of Inl e \<Rightarrow> Inl e | Inr t' \<Rightarrow> buildTree pf t' ys)"
  by (induction xs arbitrary: t) (simp_all split: sum.splits)

lemma parseSetLoop_buildTree: "parseSetLoop pf t setValues = buildTree pf t (segmentsOf setValues)"
proof (induction setValues arbitrary: t)
  case Nil
  show ?case by (simp add: segmentsOf_def)
next
  case (Cons sv svs)
  have "segmentsOf (sv # svs)
        = filter (\<lambda>p. p \<noteq> []) (map TrimSpace (Split sv '','')) @ segmentsOf svs"
    by (simp add: segmentsOf_def)
  with Cons show ?case
    by (simp add: buildTree_append parsePairs_buildTree split: sum.splits)
qed

lemma buildTree_fails_iff:
  "isl (buildTree pf t segs) \<longleftrightarrow>
     (\<exists>i<length segs. \<exists>t'. buildTree pf t (take i segs) = Inr t' \<and> isl (parsePair pf t' (segs ! i)))"
proof (induction segs arbitrary: t)
  case Nil
  show ?case by simp
next
  case (Cons s segs)
  show ?case
  proof (cases "parsePair pf t s")
    case (Inl e)
    then have "isl (buildTree pf t (s # segs))" by simp
    moreover have "buildTree pf t (take 0 (s # segs)) = Inr t \<and> isl (parsePair pf t ((s # segs) ! 0))"
      using Inl by simp
    ultimately show ?thesis by blast
  next
    case (Inr t1)
    have "(\<exists>i<length (s # segs). \<exists>t'. buildTree pf t (take i (s # segs)) = Inr t'
             \<and> isl (parsePair pf t' ((s # segs) ! i)))
        \<longleftrightarrow> (\<exists>i<length segs. \<exists>t'. buildTree pf t1 (take i segs) = Inr t'
             \<and> isl (parsePair pf t' (segs ! i)))" (is "?L \<longleftrightarrow> ?R")
    proof
      assume ?L
      then obtain i t' where i: "i < length (s # segs)"
        and b: "buildTree pf t (take i (s # segs)) = Inr t'"
        and f: "isl (parsePair pf t' ((s # segs) ! i))" by blast
      from b f Inr have "i \<noteq> 0" by (cases i) auto
      then obtain i' where "i = Suc i'" by (cases i) auto
      with i b f Inr show ?R by auto
    next
      assume ?R
      then obtain i t' where "i < length segs" "buildTree pf t1 (take i segs) = Inr t'"
        "isl (parsePair pf t' (segs ! i))" by blast
      with Inr have "Suc i < length (s # segs)
          \<and> buildTree pf t (take (Suc i) (s # segs)) = Inr t'
          \<and> isl (parsePair pf t' ((s # segs) ! Suc i))" by simp
      then show ?L by blast
    qed
    with Inr Cons.IH [of t1] show ?thesis by simp
  qed
qed

lemma blocked_iff:
  "blocked t ks \<longleftrightarrow>
     (\<exists>n. 1 \<le> n \<and> n < length ks \<and>
          (case lookupPath t (take n ks) of Some v \<Rightarrow> \<not> isMap v | None \<Rightarrow> False))"
  by (auto simp: blocked_def list_ex_iff)

lemma blocked_short [simp]: "blocked t [] = False" "blocked t [k] = False"
  by (simp_all add: blocked_def)

lemma blocked_step:
  "blocked t (k # k' # ks) =
     (case map_of t k of
        None \<Rightarrow> False
      | Some v \<Rightarrow> (case asMap (Some v) of Some m \<Rightarrow> blocked m (k' # ks) | None \<Rightarrow> True))"
proof (cases "map_of t k")
  case None
  have "lookupPath t (take n (k # k' # ks)) = None" if "1 \<le> n" for n
    using that None by (cases n) simp_all
  then have "\<not> blocked t (k # k' # ks)" unfolding blocked_iff by auto
  with None show ?thesis by simp
next
  case (Some v)
  show ?thesis
  proof (cases "asMap (Some v)")
    case None
    then have "\<not> isMap v" by (cases v) auto
    with Some have "case lookupPath t (take 1 (k # k' # ks)) of Some v \<Rightarrow> \<not> isMap v | None \<Rightarrow> False"
      by simp
    then have "blocked t (k # k' # ks)" unfolding blocked_iff
      by (intro exI [of _ 1]) simp
    with Some None show ?thesis by simp
  next
    case (Some m)
    then have v: "v = VMap m" by (cases v) auto
    have "blocked t (k # k' # ks) \<longleftrightarrow> blocked m (k' # ks)"
    proof
      assume "blocked t (k # k' # ks)"
      then obtain n where n: "1 \<le> n" "n < length (k # k' # ks)"
        and c: "case lookupPath t (take n (k # k' # ks)) of Some v \<Rightarrow> \<not> isMap v | None \<Rightarrow> False"
        unfolding blocked_iff by blast
      from n obtain n' where n': "n = Suc n'" by (cases n) auto
      show "blocked m (k' # ks)"
      proof (cases n')
        case 0
        with c n' \<open>map_of t k = Some v\<close> v show ?thesis by simp
      next
        case (Suc j)
        with c n' \<open>map_of t k = Some v\<close> v
        have "case lookupPath m (take n' (k' # ks)) of Some v \<Rightarrow> \<not> isMap v | None \<Rightarrow> False"
          by simp
        moreover from n n' Suc have "1 \<le> n'" "n' < length (k' # ks)" by simp_all
        ultimately show ?thesis unfolding blocked_iff by blast
      qed
    next
      assume "blocked m (k' # ks)"
      then obtain n where n: "1 \<le> n" "n < length (k' # ks)"
        and c: "case lookupPath m (take n (k' # ks)) of Some v \<Rightarrow> \<not> isMap v | None \<Rightarrow> False"
        unfolding blocked_iff by blast
      from n obtain j where j: "n = Suc j" by (cases n) auto
      with c \<open>map_of t k = Some v\<close> v
      have "case lookupPath t (take (Suc n) (k # k' # ks)) of Some v \<Rightarrow> \<not> isMap v | None \<Rightarrow> False"
        by simp
      moreover from n have "1 \<le> Suc n" "Suc n < length (k # k' # ks)" by simp_all
      ultimately show "blocked t (k # k' # ks)" unfolding blocked_iff by blast
    qed
    with \<open>map_of t k = Some v\<close> Some show ?thesis by simp
  qed
qed

lemma blocked_empty: "\<not> blocked [] ks"
proof (cases ks)
  case Nil
  then show ?thesis by simp
next
  case (Cons k ks')
  then show ?thesis by (cases ks') (simp_all add: blocked_step)
qed

lemma setNestedLoop_fails_iff: "isl (setNestedLoop seen t ks v) \<longleftrightarrow> blocked t ks"
proof (induction seen t ks v rule: setNestedLoop.induct)
  case (1 seen current "value")
  show ?case by simp
next
  case (2 seen current finalKey "value")
  show ?case by simp
next
  case (3 seen current k k' ks "value")
  let ?c1 = "if map_of current k = None then AList.update k (VMap []) current else current"
  show ?case
  proof (cases "map_of current k")
    case None
    then have m: "asMap (map_of ?c1 k) = Some []" by (simp add: update_conv')
    from "3.IH" [OF refl m] have "\<not> isl (setNestedLoop (seen @ [k]) [] (k' # ks) value)"
      by (simp add: blocked_empty)
    then obtain r where "setNestedLoop (seen @ [k]) [] (k' # ks) value = Inr r"
      by (cases "setNestedLoop (seen @ [k]) [] (k' # ks) value") auto
    with None m show ?thesis
      by (simp add: blocked_step Let_def update_conv')
  next
    case (Some x)
    show ?thesis
    proof (cases "asMap (Some x)")
      case None
      with Some show ?thesis by (simp add: blocked_step Let_def)
    next
      case (Some m)
      with \<open>map_of current k = Some x\<close> have a: "asMap (map_of ?c1 k) = Some m" by simp
      from "3.IH" [OF refl a] Some \<open>map_of current k = Some x\<close> show ?thesis
        by (cases "setNestedLoop (seen @ [k]) m (k' # ks) value")
           (simp_all add: blocked_step Let_def)
    qed
  qed
qed

lemma lookupPath_Cons2:
  "lookupPath t (k # k' # ks) =
     (case asMap (map_of t k) of Some m \<Rightarrow> lookupPath m (k' # ks) | None \<Rightarrow> None)"
  by (cases "map_of t k"; simp) (rename_tac v, case_tac v; simp)

lemma setNestedLoop_writes:
  "setNestedLoop seen t ks v = Inr t' \<Longrightarrow> ks \<noteq> [] \<Longrightarrow> lookupPath t' ks = Some v"
proof (induction seen t ks v arbitrary: t' rule: setNestedLoop.induct)
  case (1 seen current "value")
  then show ?case by simp
next
  case (2 seen current finalKey "value")
  then show ?case by (auto simp: update_conv')
next
  case (3 seen current k k' ks "value")
  let ?c1 = "if map_of current k = None then AList.update k (VMap []) current else current"
  from "3.prems"(1) obtain nextMap m where a: "asMap (map_of ?c1 k) = Some nextMap"
    and r: "setNestedLoop (seen @ [k]) nextMap (k' # ks) value = Inr m"
    and t': "t' = AList.update k (VMap m) ?c1"
    by (auto simp: Let_def split: option.splits sum.splits)
  from "3.IH" [OF refl a r] have "lookupPath m (k' # ks) = Some value" by simp
  with t' show ?case by (simp add: lookupPath_Cons2 update_conv')
qed

lemma setNestedLoop_frame:
  "setNestedLoop seen t ks v = Inr t' \<Longrightarrow> \<not> prefix ks p \<Longrightarrow> \<not> prefix p ks \<Longrightarrow>
     lookupPath t' p = lookupPath t p"
proof (induction seen t ks v arbitrary: t' p rule: setNestedLoop.induct)
  case (1 seen current "value")
  then show ?case by simp
next
  case (2 seen current finalKey "value")
  from "2.prems" obtain q ps where p: "p = q # ps" and q: "q \<noteq> finalKey"
    by (cases p) auto
  with "2.prems"(1) show ?case by (auto simp: update_conv')
next
  case (3 seen current k k' ks "value")
  let ?c1 = "if map_of current k = None then AList.update k (VMap []) current else current"
  from "3.prems"(1) obtain nextMap m where a: "asMap (map_of ?c1 k) = Some nextMap"
    and r: "setNestedLoop (seen @ [k]) nextMap (k' # ks) value = Inr m"
    and t': "t' = AList.update k (VMap m) ?c1"
    by (auto simp: Let_def split: option.splits sum.splits)
  from "3.prems"(3) obtain q ps where p: "p = q # ps" by (cases p) auto
  show ?case
  proof (cases "q = k")
    case False
    with p t' show ?thesis by (auto simp: update_conv')
  next
    case True
    with p "3.prems"(2,3) have u: "\<not> prefix (k' # ks) ps" "\<not> prefix ps (k' # ks)" by auto
    then obtain q' ps' where ps: "ps = q' # ps'" by (cases ps) auto
    from "3.IH" [OF refl a r u] have i: "lookupPath m ps = lookupPath nextMap ps" .
    have "lookupPath t' p = lookupPath m ps"
      unfolding p True ps t' by (simp add: lookupPath_Cons2 update_conv')
    moreover have "lookupPath current p = lookupPath nextMap ps"
    proof (cases "map_of current k")
      case None
      with a have "nextMap = []" by (simp add: update_conv')
      with None show ?thesis unfolding p True ps by (simp add: lookupPath_Cons2)
    next
      case (Some x)
      with a have "x = VMap nextMap" by (cases x) auto
      with Some show ?thesis unfolding p True ps by simp
    qed
    ultimately show ?thesis using i by simp
  qed
qed

lemma Index_char_None: "Index s [d] = None \<longleftrightarrow> d \<notin> set s"
  by (induction s) auto

lemma Index_char_Some:
  "Index s [d] = Some m \<Longrightarrow>
     take m s = takeWhile (\<lambda>c. c \<noteq> d) s \<and> drop (m + 1) s = tl (dropWhile (\<lambda>c. c \<noteq> d) s)"
  by (induction s arbitrary: m) (auto split: if_splits)

lemma parsePair_noeq: "CHR ''='' \<notin> set seg \<Longrightarrow> parsePair pf t seg = Inl (InvalidSetFormat seg)"
proof -
  assume "CHR ''='' \<notin> set seg"
  then have "Index seg ''='' = None" by (simp add: Index_char_None)
  then have "SplitN seg ''='' 2 = [seg]" by (simp add: numeral_2_eq_2)
  then show ?thesis by (simp add: parsePair_def)
qed

lemma parsePair_eq:
  assumes "CHR ''='' \<in> set seg"
  shows "parsePair pf t seg =
     (case setNestedLoop [] t (pathOf seg) (convertValue pf (valueOf seg)) of
        Inl e \<Rightarrow> Inl (SetNestedError (keyOf seg) e)
      | Inr t' \<Rightarrow> Inr t')"
proof -
  from assms obtain m where m: "Index seg ''='' = Some m"
    using Index_char_None [of seg "CHR ''=''"] by auto
  then have "SplitN seg ''='' 2 = [take m seg, drop (m + 1) seg]"
    by (simp add: numeral_2_eq_2)
  moreover note Index_char_Some [OF m]
  ultimately show ?thesis
    by (simp add: parsePair_def setNestedValue_def pathOf_def keyOf_def valueOf_def
          Split_single Let_def cong: sum.case_cong)
qed

lemma parsePair_fails_iff:
  "isl (parsePair pf t seg) \<longleftrightarrow> CHR ''='' \<notin> set seg \<or> blocked t (pathOf seg)"
proof (cases "CHR ''='' \<in> set seg")
  case True
  then show ?thesis
    using setNestedLoop_fails_iff [of "[]" t "pathOf seg" "convertValue pf (valueOf seg)"]
    by (cases "setNestedLoop [] t (pathOf seg) (convertValue pf (valueOf seg))")
       (simp_all add: parsePair_eq)
next
  case False
  then show ?thesis by (simp add: parsePair_noeq)
qed

lemma parsePair_writes:
  assumes "parsePair pf t seg = Inr t'"
  shows "lookupPath t' (pathOf seg) = Some (convertValue pf (valueOf seg))"
    and "\<not> prefix (pathOf seg) p \<Longrightarrow> \<not> prefix p (pathOf seg) \<Longrightarrow> lookupPath t' p = lookupPath t p"
proof -
  from assms have e: "CHR ''='' \<in> set seg"
    using parsePair_noeq [of seg pf t] by auto
  with assms have r: "setNestedLoop [] t (pathOf seg) (convertValue pf (valueOf seg)) = Inr t'"
    by (simp add: parsePair_eq split: sum.splits)
  have "pathOf seg \<noteq> []" by (simp add: pathOf_def splitOn_nonempty)
  with r show "lookupPath t' (pathOf seg) = Some (convertValue pf (valueOf seg))"
    by (rule setNestedLoop_writes)
  show "lookupPath t' p = lookupPath t p" if "\<not> prefix (pathOf seg) p" "\<not> prefix p (pathOf seg)"
    using r that by (rule setNestedLoop_frame)
qed

lemma buildTree_frame:
  "buildTree pf t segs = Inr t' \<Longrightarrow>
   (\<And>s. s \<in> set segs \<Longrightarrow> \<not> prefix (pathOf s) p \<and> \<not> prefix p (pathOf s)) \<Longrightarrow>
   lookupPath t' p = lookupPath t p"
proof (induction segs arbitrary: t)
  case Nil
  then show ?case by simp
next
  case (Cons s segs)
  from Cons.prems(1) obtain t1 where s: "parsePair pf t s = Inr t1"
    and r: "buildTree pf t1 segs = Inr t'" by (auto split: sum.splits)
  from Cons.prems(2) [of s] have "lookupPath t1 p = lookupPath t p"
    by (intro parsePair_writes(2) [OF s]) simp_all
  moreover have "lookupPath t' p = lookupPath t1 p"
    using r Cons.prems(2) by (intro Cons.IH) simp_all
  ultimately show ?case by simp
qed

lemma buildTree_writes:
  "buildTree pf t segs = Inr t' \<Longrightarrow> i < length segs \<Longrightarrow>
   (\<And>j. i < j \<Longrightarrow> j < length segs \<Longrightarrow>
      \<not> prefix (pathOf (segs ! j)) (pathOf (segs ! i)) \<and> \<not> prefix (pathOf (segs ! i)) (pathOf (segs ! j))) \<Longrightarrow>
   lookupPath t' (pathOf (segs ! i)) = Some (convertValue pf (valueOf (segs ! i)))"
proof (induction segs arbitrary: t i)
  case Nil
  then show ?case by simp
next
  case (Cons s segs)
  from Cons.prems(1) obtain t1 where s: "parsePair pf t s = Inr t1"
    and r: "buildTree pf t1 segs = Inr t'" by (auto split: sum.splits)
  show ?case
  proof (cases i)
    case 0
    have "lookupPath t' (pathOf s) = lookupPath t1 (pathOf s)"
    proof (rule buildTree_frame [OF r])
      fix x assume "x \<in> set segs"
      then obtain j where j: "j < length segs" "x = segs ! j" by (auto simp: in_set_conv_nth)
      with Cons.prems(3) [of "Suc j"] 0
      show "\<not> prefix (pathOf x) (pathOf s) \<and> \<not> prefix (pathOf s) (pathOf x)" by simp
    qed
    with parsePair_writes(1) [OF s] 0 show ?thesis by simp
  next
    case (Suc i')
    have "lookupPath t' (pathOf (segs ! i')) = Some (convertValue pf (valueOf (segs ! i')))"
    proof (rule Cons.IH [OF r])
      from Cons.prems(2) Suc show "i' < length segs" by simp
    next
      fix j assume "i' < j" "j < length segs"
      with Cons.prems(3) [of "Suc j"] Suc
      show "\<not> prefix (pathOf (segs ! j)) (pathOf (segs ! i'))
            \<and> \<not> prefix (pathOf (segs ! i')) (pathOf (segs ! j))" by simp
    qed
    with Suc show ?thesis by simp
  qed
qed

subsection \<open>The merge on a store\<close>

lemma entriesAt_old: "inv h0 h \<Longrightarrow> a < length h0 \<Longrightarrow> entriesAt h a = entriesAt h0 a"
proof -
  assume i: "inv h0 h" and a: "a < length h0"
  then have "take (length h0) h ! a = h0 ! a" by (simp add: inv_def)
  with a have "h ! a = h0 ! a" by simp
  with i a show ?thesis by (simp add: entriesAt_def inv_def)
qed

lemma inv_new_entries:
  "inv h0 h \<Longrightarrow> length h0 \<le> a \<Longrightarrow> a < length h \<Longrightarrow>
     \<exists>es. entriesAt h a = Some es \<and> (\<forall>k b. (k, RMap b) \<in> set es \<longrightarrow> length h0 \<le> b \<and> b < length h)"
  by (simp add: inv_def newPart_def)

lemma update_entry: "(k', x) \<in> set (AList.update k v al) \<Longrightarrow> (k', x) = (k, v) \<or> (k', x) \<in> set al"
  by (induction al) (auto split: if_splits)

lemma entriesAt_update:
  "a < length h \<Longrightarrow> entriesAt (h[a := ob]) b = (if b = a then (case ob of OMap es \<Rightarrow> Some es | _ \<Rightarrow> None) else entriesAt h b)"
  by (auto simp: entriesAt_def)

lemma storeS_inv:
  assumes "inv h0 h" and "length h0 \<le> d" and "d < length h"
    and "\<And>b. v = RMap b \<Longrightarrow> length h0 \<le> b \<and> b < length h"
  shows "\<exists>h'. storeS h d k v = Some h' \<and> inv h0 h' \<and> length h' = length h"
proof -
  from inv_new_entries [OF assms(1-3)] obtain es where es: "entriesAt h d = Some es"
    and r: "\<And>k b. (k, RMap b) \<in> set es \<Longrightarrow> length h0 \<le> b \<and> b < length h" by blast
  let ?h' = "h[d := OMap (AList.update k v es)]"
  have s: "storeS h d k v = Some ?h'" by (simp add: storeS_def es)
  have "take (length h0) ?h' = h0" using assms(1,2) by (simp add: inv_def)
  moreover have "newPart (length h0) ?h'"
    unfolding newPart_def
  proof (intro allI impI)
    fix a assume a: "length h0 \<le> a \<and> a < length ?h'"
    show "\<exists>es. entriesAt ?h' a = Some es
            \<and> (\<forall>k b. (k, RMap b) \<in> set es \<longrightarrow> length h0 \<le> b \<and> b < length ?h')"
    proof (cases "a = d")
      case True
      have "\<forall>k' b. (k', RMap b) \<in> set (AList.update k v es) \<longrightarrow> length h0 \<le> b \<and> b < length h"
        using r assms(4) by (auto dest!: update_entry)
      with True assms(3) show ?thesis by (simp add: entriesAt_update)
    next
      case False
      with a inv_new_entries [OF assms(1), of a] assms(3) show ?thesis
        by (simp add: entriesAt_update)
    qed
  qed
  ultimately have "inv h0 ?h'" using assms(1) by (simp add: inv_def)
  with s show ?thesis by simp
qed

lemma makeMap_inv: "inv h0 h \<Longrightarrow> inv h0 (h @ [OMap []])"
proof -
  assume i: "inv h0 h"
  have "newPart (length h0) (h @ [OMap []])"
    unfolding newPart_def
  proof (intro allI impI)
    fix a assume a: "length h0 \<le> a \<and> a < length (h @ [OMap []])"
    show "\<exists>es. entriesAt (h @ [OMap []]) a = Some es
            \<and> (\<forall>k b. (k, RMap b) \<in> set es \<longrightarrow> length h0 \<le> b \<and> b < length (h @ [OMap []]))"
    proof (cases "a < length h")
      case True
      with a inv_new_entries [OF i, of a] show ?thesis
        by (fastforce simp: entriesAt_def nth_append)
    next
      case False
      with a have "a = length h" by simp
      then show ?thesis by (simp add: entriesAt_def)
    qed
  qed
  with i show ?thesis by (simp add: inv_def)
qed

lemma mergeStep_good:
  assumes g: "goodRec h0 n deepMergeRec" and i: "inv h0 h"
    and d: "length h0 \<le> dst" "dst < length h"
    and v: "case v of RMap b \<Rightarrow> depthOK n h0 b | _ \<Rightarrow> True"
  shows "\<exists>h'. mergeStep deepMergeRec dst h k v = Some h' \<and> inv h0 h' \<and> length h \<le> length h'"
proof (cases "\<exists>b. v = RMap b")
  case False
  then have "\<And>b. v = RMap b \<Longrightarrow> length h0 \<le> b \<and> b < length h" by simp
  from storeS_inv [OF i d this, where k = k] obtain h' where
    "storeS h dst k v = Some h'" "inv h0 h'" "length h' = length h" by blast
  with False show ?thesis by (cases v) (simp_all add: mergeStep_def)
next
  case True
  then obtain srcMap where sm: "v = RMap srcMap" by blast
  with v have dep: "depthOK n h0 srcMap" by simp
  from inv_new_entries [OF i d] obtain es where es: "entriesAt h dst = Some es"
    and r: "\<And>k b. (k, RMap b) \<in> set es \<Longrightarrow> length h0 \<le> b \<and> b < length h" by blast
  show ?thesis
  proof (cases "\<exists>dstMap. lookupS h dst k = Some (RMap dstMap)")
    case True
    then obtain dstMap where dm: "lookupS h dst k = Some (RMap dstMap)" by blast
    with es have "(k, RMap dstMap) \<in> set es" by (auto simp: lookupS_def dest: map_of_SomeD)
    from r [OF this] i dep g obtain h' where
      "deepMergeRec h dstMap srcMap = Some h'" "inv h0 h'" "length h \<le> length h'"
      unfolding goodRec_def by blast
    with sm dm show ?thesis by (simp add: mergeStep_def)
  next
    case False
    let ?h1 = "h @ [OMap []]"
    have i1: "inv h0 ?h1" using i by (rule makeMap_inv)
    have "length h0 \<le> length h" "length h < length ?h1" using i by (simp_all add: inv_def)
    with i1 dep g obtain h2 where h2: "deepMergeRec ?h1 (length h) srcMap = Some h2"
      "inv h0 h2" "length ?h1 \<le> length h2"
      unfolding goodRec_def by blast
    have "\<And>b. RMap (length h) = RMap b \<Longrightarrow> length h0 \<le> b \<and> b < length h2"
      using h2(3) \<open>length h0 \<le> length h\<close> by simp
    moreover have "dst < length h2" using d h2(3) by simp
    ultimately obtain h' where h': "storeS h2 dst k (RMap (length h)) = Some h'" "inv h0 h'"
      "length h' = length h2"
      using storeS_inv [OF h2(2) d(1), where v = "RMap (length h)" and k = k] by blast
    have "mergeStep deepMergeRec dst h k v = Some h'"
      using False sm h2(1) h'(1)
      by (auto simp: mergeStep_def makeMap_def split: option.splits rval.splits)
    with h' h2(3) show ?thesis by simp
  qed
qed

lemma rangeLoop_good:
  assumes g: "goodRec h0 n deepMergeRec" and d: "length h0 \<le> dst"
  shows "inv h0 h \<Longrightarrow> dst < length h \<Longrightarrow>
     list_all (\<lambda>(k, v). case v of RMap b \<Rightarrow> depthOK n h0 b | _ \<Rightarrow> True) es \<Longrightarrow>
     \<exists>h'. rangeLoop (mergeStep deepMergeRec dst) h es = Some h' \<and> inv h0 h' \<and> length h \<le> length h'"
proof (induction es arbitrary: h)
  case Nil
  then show ?case by simp
next
  case (Cons e es)
  obtain k v where e: "e = (k, v)" by (cases e)
  with Cons.prems(3) have v: "case v of RMap b \<Rightarrow> depthOK n h0 b | _ \<Rightarrow> True"
    and rest: "list_all (\<lambda>(k, v). case v of RMap b \<Rightarrow> depthOK n h0 b | _ \<Rightarrow> True) es" by simp_all
  from mergeStep_good [OF g Cons.prems(1) d Cons.prems(2) v, of k] obtain h1 where
    h1: "mergeStep deepMergeRec dst h k v = Some h1" "inv h0 h1" "length h \<le> length h1" by blast
  from Cons.prems(2) h1(3) have "dst < length h1" by simp
  from Cons.IH [OF h1(2) this rest] obtain h' where
    "rangeLoop (mergeStep deepMergeRec dst) h1 es = Some h'" "inv h0 h'" "length h1 \<le> length h'"
    by blast
  with h1 e show ?case by simp
qed

lemma depthOK_old:
  "depthOK n h0 s \<Longrightarrow> s < length h0"
  by (cases n) (auto simp: entriesAt_def split: option.splits if_splits)

lemma deepMergeS_good: "goodRec h0 n (deepMergeS n)"
proof (induction n)
  case 0
  show ?case by (simp add: goodRec_def)
next
  case (Suc n)
  show ?case
    unfolding goodRec_def
  proof (intro allI impI)
    fix h d s
    assume a: "inv h0 h \<and> length h0 \<le> d \<and> d < length h \<and> depthOK (Suc n) h0 s"
    then have "depthOK (Suc n) h0 s" by blast
    then have s: "s < length h0" by (rule depthOK_old)
    from a obtain es where es: "entriesAt h0 s = Some es"
      and all: "list_all (\<lambda>(k, v). case v of RMap b \<Rightarrow> depthOK n h0 b | _ \<Rightarrow> True) es"
      by (auto split: option.splits)
    from a have "inv h0 h" by blast
    with s es have "entriesAt h s = Some es" by (simp add: entriesAt_old)
    moreover from rangeLoop_good [OF Suc, of d h es] a all
    obtain h' where "rangeLoop (mergeStep (deepMergeS n) d) h es = Some h'" "inv h0 h'"
      "length h \<le> length h'" by blast
    ultimately show "\<exists>h'. deepMergeS (Suc n) h d s = Some h' \<and> inv h0 h' \<and> length h \<le> length h'"
      by simp
  qed
qed

lemma mapReach_new:
  assumes "inv h0 h" and "length h0 \<le> a" and "a < length h"
  shows "mapReach h a b \<Longrightarrow> length h0 \<le> b \<and> b < length h"
proof (induction rule: mapReach.induct)
  case start
  from assms show ?case by simp
next
  case (step b es k c)
  from inv_new_entries [OF assms(1), of b] step show ?case by auto
qed

lemma storeS_take:
  "storeS h b k v = Some h'' \<Longrightarrow> n \<le> b \<Longrightarrow> take n h'' = take n h"
  by (auto simp: storeS_def split: option.splits)

lemma inv_start: "inv h (h @ [OMap []])"
  by (auto simp: inv_def newPart_def entriesAt_def nth_append)

lemma buildTree_noeq:
  "seg \<in> set segs \<Longrightarrow> CHR ''='' \<notin> set seg \<Longrightarrow> isl (buildTree pf t segs)"
proof (induction segs arbitrary: t)
  case Nil
  then show ?case by simp
next
  case (Cons s segs)
  show ?case
  proof (cases "parsePair pf t s")
    case (Inl e)
    then show ?thesis by simp
  next
    case (Inr t1)
    with Cons.prems have "seg \<noteq> s" by (auto simp: parsePair_noeq)
    with Cons.prems have "seg \<in> set segs" by simp
    with Cons.IH [OF this Cons.prems(2), of t1] Inr show ?thesis by simp
  qed
qed
section \<open>The claims\<close>

subsection \<open>C1: precedence of the sources\<close>

text \<open>
  C1: for every three value trees A (file values), B (environment values) and C (override
  values), merged with empty pre-seeded config values by \<^verbatim>\<open>MergeValues\<close>: if all three
  define the same scalar key K, the merged tree has C's value at K; if only A and B define
  K, it has B's value at K.  (Trees are Go maps: their keys are distinct.)
\<close>

theorem C1_merge_precedence:
  assumes "distinct (map fst B)" and "distinct (map fst C)"
  shows "(map_of A K = Some a \<and> map_of B K = Some b \<and> map_of C K = Some c
            \<and> isScalar a \<and> isScalar b \<and> isScalar c
          \<longrightarrow> map_of (MergeValues A B C []) K = Some c)
       \<and> (map_of A K = Some a \<and> map_of B K = Some b \<and> map_of C K = None
            \<and> isScalar a \<and> isScalar b
          \<longrightarrow> map_of (MergeValues A B C []) K = Some b)"
  using assms
  by (auto simp: MergeValues_def deepMerge_map_of mergeEntry_simps(1) isScalar_not_isMap)

theorem C1_merge_precedence_witness:
  "map_of (MergeValues [(''debug'', VBool False), (''port'', VInt 80)]
                       [(''debug'', VStr ''0''), (''port'', VStr ''8080'')]
                       [(''debug'', VBool True)] []) ''debug'' = Some (VBool True)
   \<and> map_of (MergeValues [(''debug'', VBool False), (''port'', VInt 80)]
                         [(''debug'', VStr ''0''), (''port'', VStr ''8080'')]
                         [(''debug'', VBool True)] []) ''port'' = Some (VStr ''8080'')"
proof -
  let ?A = "[(''debug'', VBool False), (''port'', VInt 80)]"
  let ?B = "[(''debug'', VStr ''0''), (''port'', VStr ''8080'')]"
  let ?C = "[(''debug'', VBool True)]"
  have d: "distinct (map fst ?B)" "distinct (map fst ?C)" by simp_all
  from C1_merge_precedence [OF d, of ?A "''debug''" "VBool False" "VStr ''0''" "VBool True"]
  have "map_of (MergeValues ?A ?B ?C []) ''debug'' = Some (VBool True)" by simp
  moreover
  from C1_merge_precedence [OF d, of ?A "''port''" "VInt 80" "VStr ''8080''"]
  have "map_of (MergeValues ?A ?B ?C []) ''port'' = Some (VStr ''8080'')" by simp
  ultimately show ?thesis by simp
qed

subsection \<open>C2: strict and lenient rendering\<close>

text \<open>
  C2: for a template that looks up a single key absent from the data tree,
  \<^verbatim>\<open>ExecuteTemplate\<close> in lenient mode succeeds and renders \<^verbatim>\<open><no value>\<close> in place of the
  lookup; in strict mode it fails with a \<^verbatim>\<open>StrictModeError\<close> whose \<^verbatim>\<open>Variable\<close> names the
  missing key and whose \<^verbatim>\<open>Template\<close> is the template's name.  The wrapper reads the
  variable off the engine's message, which it splits at every \<^verbatim>\<open>key "\<close>, and the message
  begins with the template's name.  The template \<^verbatim>\<open>Hello {{.name}}!\<close> named \<^verbatim>\<open>key "x\<close>,
  on the empty map, is rendered in lenient mode as the claim says and fails in strict mode
  with the template's name, but with the variable \<^verbatim>\<open>x:1:8: executing \<close> where the missing
  key is \<^verbatim>\<open>name\<close>.  Named \<^verbatim>\<open>test\<close>, the same template fails with the variable \<^verbatim>\<open>name\<close>.
\<close>

theorem C2_strict_vs_lenient_template_name:
  "render parseHello executeHello (''key '' @ [CHR 0x22] @ ''x'') False ''Hello {{.name}}!'' (VMap [])
     = Inr ''Hello <no value>!''
   \<and> render parseHello executeHello (''key '' @ [CHR 0x22] @ ''x'') True ''Hello {{.name}}!'' (VMap [])
     = Inl (StrictModeError ''x:1:8: executing '' (''key '' @ [CHR 0x22] @ ''x''))
   \<and> render parseHello executeHello ''test'' False ''Hello {{.name}}!'' (VMap [])
     = Inr ''Hello <no value>!''
   \<and> render parseHello executeHello ''test'' True ''Hello {{.name}}!'' (VMap [])
     = Inl (StrictModeError ''name'' ''test'')"
  by code_simp

subsection \<open>C3: the name of the missing key\<close>

text \<open>
  C3, as stated, for every message: a message containing \<^verbatim>\<open>map has no entry for key "K"\<close>
  gives K, a message containing \<^verbatim>\<open>can't evaluate field F\<close> gives F.  It fails for the
  empty K, which the guard \<^verbatim>\<open>endQuote > 0\<close> turns into \<^verbatim>\<open>unknown\<close>, and for a message
  with both phrases, where the first pattern wins and F is not returned.
\<close>

theorem C3_extractVariableFromError_counterexample:
  "extractVariableFromError (''map has no entry for key '' @ [CHR 0x22, CHR 0x22]) = ''unknown''
   \<and> extractVariableFromError
        (''can't evaluate field a: map has no entry for key '' @ [CHR 0x22] @ ''b'' @ [CHR 0x22])
       = ''b''"
  by code_simp

text \<open>
  C3, amended: \<^verbatim>\<open>extractVariableFromError\<close> always returns a string.  For a message that
  contains \<^verbatim>\<open>map has no entry for key "K"\<close>, with no \<^verbatim>\<open>key "\<close> before the one of the
  phrase and a non-empty K that has no double quote and does not end in \<^verbatim>\<open>key\<close> and a
  space, it returns K.  For a message without \<^verbatim>\<open>map has no entry for key\<close> that contains
  \<^verbatim>\<open>can't evaluate field F\<close>, with no \<^verbatim>\<open>field\<close> and a space before the one of the phrase,
  F without a space and not ending in \<^verbatim>\<open>field\<close>, and a space or the end of the message
  after F, it returns F.  For a message with neither \<^verbatim>\<open>map has no entry for key\<close> nor
  \<^verbatim>\<open>can't evaluate field\<close> it returns \<^verbatim>\<open>unknown\<close>.
\<close>

theorem C3_extractVariableFromError:
  "(\<not> Contains (pre @ ''map has no entry for key '') (''key '' @ [CHR 0x22])
      \<and> K \<noteq> [] \<and> CHR 0x22 \<notin> set K \<and> \<not> suffix ''key '' K \<longrightarrow>
      extractVariableFromError
        (pre @ ''map has no entry for key '' @ [CHR 0x22] @ K @ [CHR 0x22] @ post) = K)
   \<and> (\<not> Contains (pre' @ ''can't evaluate field '' @ F @ rest) ''map has no entry for key''
      \<and> \<not> Contains (pre' @ ''can't evaluate field'') ''field ''
      \<and> CHR '' '' \<notin> set F \<and> \<not> suffix ''field'' F \<and> (rest = [] \<or> hd rest = CHR '' '') \<longrightarrow>
      extractVariableFromError (pre' @ ''can't evaluate field '' @ F @ rest) = F)
   \<and> (\<not> Contains errMsg ''map has no entry for key'' \<and> \<not> Contains errMsg ''can't evaluate field'' \<longrightarrow>
      extractVariableFromError errMsg = ''unknown'')"
  using keyPattern_found [of pre K post] fieldPattern_found [of pre' F rest]
  by (simp add: extractVariableFromError_def keyPattern_absent fieldPattern_absent)

theorem C3_extractVariableFromError_witness:
  "extractVariableFromError
     (''template: test:1:2: executing '' @ [CHR 0x22] @ ''test'' @ [CHR 0x22]
        @ '' at <.undefined>: map has no entry for key '' @ [CHR 0x22] @ ''undefined'' @ [CHR 0x22] @ [])
     = ''undefined''
   \<and> extractVariableFromError
       ((''template: test:1:2: executing '' @ [CHR 0x22] @ ''test'' @ [CHR 0x22] @ '' at <.app.missing>: '')
          @ ''can't evaluate field '' @ ''missing'' @ '' in type map[string]interface {}'')
     = ''missing''
   \<and> extractVariableFromError ''some other error'' = ''unknown''"
proof -
  let ?p = "''template: test:1:2: executing '' @ [CHR 0x22] @ ''test'' @ [CHR 0x22] @ '' at <.undefined>: ''"
  let ?q = "''template: test:1:2: executing '' @ [CHR 0x22] @ ''test'' @ [CHR 0x22] @ '' at <.app.missing>: ''"
  let ?r = "'' in type map[string]interface {}''"
  have a: "\<not> Contains (?p @ ''map has no entry for key '') (''key '' @ [CHR 0x22])
           \<and> ''undefined'' \<noteq> [] \<and> CHR 0x22 \<notin> set ''undefined'' \<and> \<not> suffix ''key '' ''undefined''"
    by code_simp
  have b: "\<not> Contains (?q @ ''can't evaluate field '' @ ''missing'' @ ?r) ''map has no entry for key''
           \<and> \<not> Contains (?q @ ''can't evaluate field'') ''field ''
           \<and> CHR '' '' \<notin> set ''missing'' \<and> \<not> suffix ''field'' ''missing''
           \<and> (?r = [] \<or> hd ?r = CHR '' '')"
    by code_simp
  have c: "\<not> Contains ''some other error'' ''map has no entry for key''
           \<and> \<not> Contains ''some other error'' ''can't evaluate field''"
    by code_simp
  note t = C3_extractVariableFromError [where pre = ?p and K = "''undefined''" and post = "[]"
      and pre' = ?q and F = "''missing''" and rest = ?r and errMsg = "''some other error''"]
  from t a have "extractVariableFromError
      (?p @ ''map has no entry for key '' @ [CHR 0x22] @ ''undefined'' @ [CHR 0x22] @ []) = ''undefined''"
    by blast
  moreover from t b have "extractVariableFromError
      (?q @ ''can't evaluate field '' @ ''missing'' @ ?r) = ''missing''"
    by blast
  moreover from t c have "extractVariableFromError ''some other error'' = ''unknown''"
    by blast
  ultimately show ?thesis by simp
qed

subsection \<open>C4: what the merged tree shares with its sources\<close>

text \<open>
  C4, as stated: after \<^verbatim>\<open>MergeValues\<close> no nested subtree of the merged result is the same
  object as a subtree of an input tree.  It fails for values that are not
  \<^verbatim>\<open>map[string]any\<close>, which \<^verbatim>\<open>deepMerge\<close> stores as they are: the merged \<^verbatim>\<open>app\<close> is the
  file tree's interface-keyed mapping itself (address 1), the merged \<^verbatim>\<open>items\<close> is the file
  tree's slice (address 2), and the tree inside that slice (address 3) is an object of the
  input; storing into it through the result changes the input store.
\<close>

theorem C4_merge_no_alias_counterexample:
  "MergeValuesS 1 hShared 0 4 5 6
     = Some (hShared @ [OMap [(''app'', RIMap 1), (''items'', RSlice 2)]], 7)
   \<and> lookupS hShared 0 ''app'' = Some (RIMap 1)
   \<and> lookupS hShared 0 ''items'' = Some (RSlice 2)
   \<and> hShared ! 2 = OSlice [RMap 3]
   \<and> (case storeS (hShared @ [OMap [(''app'', RIMap 1), (''items'', RSlice 2)]]) 3 ''host'' (RStr ''changed'') of
         Some h'' \<Rightarrow> lookupS h'' 3 ''host'' = Some (RStr ''changed'') \<and> take 7 h'' \<noteq> hShared
       | None \<Rightarrow> False)"
  by code_simp

text \<open>
  C4, amended: for every four input trees (string-keyed maps nested at most \<open>fuel\<close> deep,
  in any store), \<^verbatim>\<open>MergeValues\<close> returns; no object of the input store is changed; the
  merged root is a new object; every string-keyed map reached from the merged root
  through entries of string-keyed maps is a new object, so storing into any of them leaves
  every object of the source trees unchanged.  Nothing is said of what lies inside slices
  and interface-keyed maps.
\<close>

theorem C4_merge_no_alias:
  assumes "depthOK fuel h yamlValues" and "depthOK fuel h envValues"
    and "depthOK fuel h setValues" and "depthOK fuel h configValues"
  shows "\<exists>h'. MergeValuesS fuel h yamlValues envValues setValues configValues = Some (h', length h)
           \<and> take (length h) h' = h
           \<and> (\<forall>b. mapReach h' (length h) b \<longrightarrow> length h \<le> b \<and> b < length h')
           \<and> (\<forall>b k v h''. mapReach h' (length h) b \<and> storeS h' b k v = Some h''
                 \<longrightarrow> take (length h) h'' = h)"
proof -
  let ?m = "length h"
  note g = deepMergeS_good [of h fuel, unfolded goodRec_def, rule_format]
  have i0: "inv h (h @ [OMap []])" by (rule inv_start)
  from g [of "h @ [OMap []]" ?m yamlValues] i0 assms(1) obtain h1 where
    h1: "deepMergeS fuel (h @ [OMap []]) ?m yamlValues = Some h1" "inv h h1"
      "length (h @ [OMap []]) \<le> length h1" by auto
  then have m1: "?m < length h1" by simp
  from g [of h1 ?m envValues] h1(2) m1 assms(2) obtain h2 where
    h2: "deepMergeS fuel h1 ?m envValues = Some h2" "inv h h2" "length h1 \<le> length h2" by auto
  with m1 have m2: "?m < length h2" by simp
  from g [of h2 ?m setValues] h2(2) m2 assms(3) obtain h3 where
    h3: "deepMergeS fuel h2 ?m setValues = Some h3" "inv h h3" "length h2 \<le> length h3" by auto
  with m2 have m3: "?m < length h3" by simp
  from g [of h3 ?m configValues] h3(2) m3 assms(4) obtain h4 where
    h4: "deepMergeS fuel h3 ?m configValues = Some h4" "inv h h4" "length h3 \<le> length h4" by auto
  with m3 have m4: "?m < length h4" by simp
  have r: "MergeValuesS fuel h yamlValues envValues setValues configValues = Some (h4, ?m)"
    using h1(1) h2(1) h3(1) h4(1) by (simp add: MergeValuesS_def makeMap_def)
  have t: "take ?m h4 = h" using h4(2) by (simp add: inv_def)
  have n: "length h \<le> b \<and> b < length h4" if "mapReach h4 ?m b" for b
    using mapReach_new [OF h4(2) _ m4 that] by simp
  have "take ?m h'' = h" if "mapReach h4 ?m b" "storeS h4 b k v = Some h''" for b k v h''
    using storeS_take [OF that(2), of ?m] n [OF that(1)] t by simp
  with r t n show ?thesis by blast
qed

theorem C4_merge_no_alias_witness:
  "\<exists>h'. MergeValuesS 2 hNested 0 3 4 6 = Some (h', 7)
     \<and> take 7 h' = hNested
     \<and> lookupS h' 7 ''db'' = Some (RMap 8)
     \<and> lookupS h' 7 ''items'' = Some (RSlice 2)
     \<and> entriesAt h' 8 = Some [(''host'', RStr ''localhost''), (''port'', RInt 5432)]"
proof -
  have d: "depthOK 2 hNested 0" "depthOK 2 hNested 3" "depthOK 2 hNested 4" "depthOK 2 hNested 6"
    by code_simp+
  have l: "length hNested = 7" by (simp add: hNested_def)
  from C4_merge_no_alias [OF d] obtain h' where
    h': "MergeValuesS 2 hNested 0 3 4 6 = Some (h', 7)" "take 7 h' = hNested"
    unfolding l by blast
  have "MergeValuesS 2 hNested 0 3 4 6
          = Some (hNested @ [OMap [(''db'', RMap 8), (''items'', RSlice 2)],
                             OMap [(''host'', RStr ''localhost''), (''port'', RInt 5432)]], 7)"
    by code_simp
  with h'(1) have e: "h' = hNested @ [OMap [(''db'', RMap 8), (''items'', RSlice 2)],
                             OMap [(''host'', RStr ''localhost''), (''port'', RInt 5432)]]"
    by simp
  have "lookupS h' 7 ''db'' = Some (RMap 8)" "lookupS h' 7 ''items'' = Some (RSlice 2)"
    "entriesAt h' 8 = Some [(''host'', RStr ''localhost''), (''port'', RInt 5432)]"
    unfolding e by code_simp+
  with h' show ?thesis by blast
qed

subsection \<open>C5: deep merge of trees with disjoint keys\<close>

text \<open>
  C5: for every two trees whose leaf paths are disjoint at every nesting level,
  deep-merging the second into the first yields the key-wise union at every level: at
  every path the keys of the merged node are the keys of the first tree's node and of the
  second's, and every leaf of the result is the leaf of the first tree there or else the
  leaf of the second.  Merging \<^verbatim>\<open>{app:{name:"x"}}\<close> with \<^verbatim>\<open>{app:{version:"1"}}\<close> yields
  \<^verbatim>\<open>{app:{name:"x", version:"1"}}\<close>.
\<close>

theorem C5_deepMerge_disjoint:
  "(wfTree b \<and> disjointTrees a b \<longrightarrow>
      keysAt (deepMerge a b) p = keysAt a p \<union> keysAt b p
      \<and> leafAt (deepMerge a b) p = (case leafAt a p of Some v \<Rightarrow> Some v | None \<Rightarrow> leafAt b p))
   \<and> deepMerge [(''app'', VMap [(''name'', VStr ''x'')])] [(''app'', VMap [(''version'', VStr ''1'')])]
       = [(''app'', VMap [(''name'', VStr ''x''), (''version'', VStr ''1'')])]"
  using merge_keysAt [of b a p] merge_leafAt [of b a p] by simp

theorem C5_deepMerge_disjoint_witness:
  "keysAt (deepMerge [(''app'', VMap [(''name'', VStr ''x'')]), (''debug'', VBool False)]
                     [(''app'', VMap [(''version'', VStr ''1'')]), (''port'', VInt 8080)]) [''app'']
     = {''name'', ''version''}
   \<and> leafAt (deepMerge [(''app'', VMap [(''name'', VStr ''x'')]), (''debug'', VBool False)]
                       [(''app'', VMap [(''version'', VStr ''1'')]), (''port'', VInt 8080)])
        [''app'', ''version''] = Some (VStr ''1'')"
proof -
  let ?a = "[(''app'', VMap [(''name'', VStr ''x'')]), (''debug'', VBool False)]"
  let ?b = "[(''app'', VMap [(''version'', VStr ''1'')]), (''port'', VInt 8080)]"
  have h: "wfTree ?b \<and> disjointTrees ?a ?b" by simp
  from C5_deepMerge_disjoint [of ?b ?a "[''app'']"] h
  have "keysAt (deepMerge ?a ?b) [''app''] = keysAt ?a [''app''] \<union> keysAt ?b [''app'']"
    by blast
  moreover
  from C5_deepMerge_disjoint [of ?b ?a "[''app'', ''version'']"] h
  have "leafAt (deepMerge ?a ?b) [''app'', ''version'']
        = (case leafAt ?a [''app'', ''version''] of Some v \<Rightarrow> Some v
           | None \<Rightarrow> leafAt ?b [''app'', ''version''])"
    by blast
  ultimately show ?thesis by (simp add: keysAt_def leafAt_def insert_commute)
qed

subsection \<open>C6: when override parsing fails\<close>

text \<open>
  C6: \<^verbatim>\<open>ParseSetValues\<close> returns an error, and no tree, if and only if some trimmed,
  non-empty comma-separated segment of an input string contains no \<^verbatim>\<open>=\<close>, or the dotted key
  of some segment has an intermediate path segment that already holds a non-tree value in
  the tree built from the segments before it.  Otherwise it succeeds, and in its result
  every segment's value stands at the segment's dotted path, unless a later segment wrote
  to that path, below it or above it: intermediate trees are created and entries written
  before are preserved.
\<close>

theorem C6_ParseSetValues:
  "(isl (ParseSetValues pf setValues) \<longleftrightarrow>
      (\<exists>i<length (segmentsOf setValues). CHR ''='' \<notin> set (segmentsOf setValues ! i))
      \<or> (\<exists>i<length (segmentsOf setValues). \<exists>t.
            buildTree pf [] (take i (segmentsOf setValues)) = Inr t
            \<and> blocked t (pathOf (segmentsOf setValues ! i))))
   \<and> (ParseSetValues pf setValues = Inr result \<and> i < length (segmentsOf setValues)
        \<and> (\<forall>j. i < j \<and> j < length (segmentsOf setValues) \<longrightarrow>
              \<not> prefix (pathOf (segmentsOf setValues ! j)) (pathOf (segmentsOf setValues ! i))
              \<and> \<not> prefix (pathOf (segmentsOf setValues ! i)) (pathOf (segmentsOf setValues ! j)))
      \<longrightarrow> lookupPath result (pathOf (segmentsOf setValues ! i))
            = Some (convertValue pf (valueOf (segmentsOf setValues ! i))))"
proof (intro conjI impI)
  let ?segs = "segmentsOf setValues"
  have e: "ParseSetValues pf setValues = buildTree pf [] ?segs"
    by (simp add: ParseSetValues_def parseSetLoop_buildTree)
  show "isl (ParseSetValues pf setValues) \<longleftrightarrow>
      (\<exists>i<length ?segs. CHR ''='' \<notin> set (?segs ! i))
      \<or> (\<exists>i<length ?segs. \<exists>t.
            buildTree pf [] (take i ?segs) = Inr t \<and> blocked t (pathOf (?segs ! i)))"
    (is "?L \<longleftrightarrow> ?A \<or> ?B")
  proof
    assume ?L
    then obtain i t where "i < length ?segs" "buildTree pf [] (take i ?segs) = Inr t"
      "CHR ''='' \<notin> set (?segs ! i) \<or> blocked t (pathOf (?segs ! i))"
      unfolding e buildTree_fails_iff parsePair_fails_iff by blast
    then show "?A \<or> ?B" by blast
  next
    assume "?A \<or> ?B"
    then show ?L
    proof
      assume ?A
      then obtain i where "i < length ?segs" "CHR ''='' \<notin> set (?segs ! i)" by blast
      then show ?L unfolding e by (intro buildTree_noeq [of "?segs ! i"]) simp_all
    next
      assume ?B
      then show ?L unfolding e buildTree_fails_iff parsePair_fails_iff by blast
    qed
  qed
next
  assume h: "ParseSetValues pf setValues = Inr result \<and> i < length (segmentsOf setValues)
        \<and> (\<forall>j. i < j \<and> j < length (segmentsOf setValues) \<longrightarrow>
              \<not> prefix (pathOf (segmentsOf setValues ! j)) (pathOf (segmentsOf setValues ! i))
              \<and> \<not> prefix (pathOf (segmentsOf setValues ! i)) (pathOf (segmentsOf setValues ! j)))"
  then have "buildTree pf [] (segmentsOf setValues) = Inr result"
    by (simp add: ParseSetValues_def parseSetLoop_buildTree)
  then show "lookupPath result (pathOf (segmentsOf setValues ! i))
            = Some (convertValue pf (valueOf (segmentsOf setValues ! i)))"
    using h by (intro buildTree_writes) simp_all
qed

theorem C6_ParseSetValues_witness:
  "isl (ParseSetValues parseFloatSample [''app=not-a-map, app.version=2.0''])
   \<and> isl (ParseSetValues parseFloatSample [''debug=true'', ''invalidformat''])
   \<and> ParseSetValues parseFloatSample [''app.name=test'', '' app.version = 2.0 '']
       = Inr [(''app'', VMap [(''name'', VStr ''test''), (''version'', VFloat 0x4000000000000000)])]
   \<and> lookupPath [(''app'', VMap [(''name'', VStr ''test''), (''version'', VFloat 0x4000000000000000)])]
         [''app'', ''name''] = Some (VStr ''test'')"
proof -
  let ?a = "[''app=not-a-map, app.version=2.0'']"
  let ?b = "[''debug=true'', ''invalidformat'']"
  let ?c = "[''app.name=test'', '' app.version = 2.0 '']"
  let ?r = "[(''app'', VMap [(''name'', VStr ''test''), (''version'', VFloat 0x4000000000000000)])]"
  have a: "1 < length (segmentsOf ?a)
      \<and> buildTree parseFloatSample [] (take 1 (segmentsOf ?a)) = Inr [(''app'', VStr ''not-a-map'')]
      \<and> blocked [(''app'', VStr ''not-a-map'')] (pathOf (segmentsOf ?a ! 1))"
    by code_simp
  have b: "1 < length (segmentsOf ?b) \<and> CHR ''='' \<notin> set (segmentsOf ?b ! 1)"
    by code_simp
  have c: "ParseSetValues parseFloatSample ?c = Inr ?r" by code_simp
  have s: "segmentsOf ?c = [''app.name=test'', ''app.version = 2.0'']" by code_simp
  have p: "pathOf ''app.name=test'' = [''app'', ''name'']"
    "pathOf ''app.version = 2.0'' = [''app'', ''version'']"
    "convertValue parseFloatSample (valueOf ''app.name=test'') = VStr ''test''"
    by code_simp+
  from C6_ParseSetValues [of parseFloatSample ?a] a
  have "isl (ParseSetValues parseFloatSample ?a)" by blast
  moreover from C6_ParseSetValues [of parseFloatSample ?b] b
  have "isl (ParseSetValues parseFloatSample ?b)" by blast
  moreover from C6_ParseSetValues [of parseFloatSample ?c ?r 0] c
  have "lookupPath ?r (pathOf (segmentsOf ?c ! 0))
          = Some (convertValue parseFloatSample (valueOf (segmentsOf ?c ! 0)))"
    by (simp add: s p less_Suc_eq)
  then have "lookupPath ?r [''app'', ''name''] = Some (VStr ''test'')"
    by (simp add: s p)
  ultimately show ?thesis using c by simp
qed

subsection \<open>C7: environment keys in camelCase\<close>

text \<open>
  C7: for every environment variable name, \<^verbatim>\<open>toCamelCase\<close> lower-cases the whole key,
  splits it on the underscore, keeps the first segment and upper-cases the first character
  of every later non-empty segment before concatenating.  The code takes the first byte
  of a segment for its first character: \<^verbatim>\<open>string(parts[i][0])\<close> is the encoding of the code
  point that has the number of that byte.  For the name \<^verbatim>\<open>DB_\<close>, U+00C9, \<^verbatim>\<open>COLE\<close> the
  lower-cased second segment starts with the bytes \<open>C3 A9\<close> of U+00E9; the code writes
  \<open>C3 83\<close>, the encoding of U+00C3, and then the byte \<open>A9\<close> left behind, where the
  specification's words (\<^const>\<open>camel_spec\<close>) give \<open>C3 89\<close>, which is U+00C9.  The four
  names of the claim come out as it says, whatever the case tables.
\<close>

theorem C7_toCamelCase_first_byte:
  "toCamelCase lowerTableSample upperTableSample (''DB_'' @ [CHR 0xC3, CHR 0x89] @ ''COLE'')
     = ''db'' @ [CHR 0xC3, CHR 0x83, CHR 0xA9] @ ''cole''
   \<and> camel_spec lowerTableSample upperTableSample (''DB_'' @ [CHR 0xC3, CHR 0x89] @ ''COLE'')
     = ''db'' @ [CHR 0xC3, CHR 0x89] @ ''cole''
   \<and> toCamelCase lowerTable upperTable ''DATABASE_HOST'' = ''databaseHost''
   \<and> toCamelCase lowerTable upperTable ''MAX_CONNECTIONS'' = ''maxConnections''
   \<and> toCamelCase lowerTable upperTable ''A_B_C_D'' = ''aBCD''
   \<and> toCamelCase lowerTable upperTable [] = []"
  by code_simp

subsection \<open>C8: type inference of override values\<close>

text \<open>
  C8: for every override value string, \<^verbatim>\<open>convertValue\<close> returns the boolean true for
  a case-insensitive \<^verbatim>\<open>true\<close> and the boolean false for a case-insensitive \<^verbatim>\<open>false\<close>;
  otherwise the base-10 integer when the integer parse succeeds; otherwise the
  floating-point number when the float parse succeeds; otherwise the string unchanged.
  \<^verbatim>\<open>true\<close> becomes true, \<^verbatim>\<open>FALSE\<close> false, \<^verbatim>\<open>123\<close> the integer 123, \<^verbatim>\<open>3.14\<close> the float
  that the float parse returns for it, and \<^verbatim>\<open>hello\<close>, which the float parse rejects, stays
  the string.
\<close>

theorem C8_convertValue:
  "(equalsIgnoreCase value ''true'' \<longrightarrow> convertValue pf value = VBool True)
   \<and> (equalsIgnoreCase value ''false'' \<longrightarrow> convertValue pf value = VBool False)
   \<and> (\<not> equalsIgnoreCase value ''true'' \<and> \<not> equalsIgnoreCase value ''false'' \<longrightarrow>
        (case Atoi value of
           Some n \<Rightarrow> convertValue pf value = VInt n
         | None \<Rightarrow>
            (case pf value of
               Some f \<Rightarrow> convertValue pf value = VFloat f
             | None \<Rightarrow> convertValue pf value = VStr value)))
   \<and> convertValue pf ''true'' = VBool True
   \<and> convertValue pf ''FALSE'' = VBool False
   \<and> convertValue pf ''123'' = VInt 123
   \<and> (pf ''3.14'' = Some f \<longrightarrow> convertValue pf ''3.14'' = VFloat f)
   \<and> (pf ''hello'' = None \<longrightarrow> convertValue pf ''hello'' = VStr ''hello'')"
proof -
  have t: "ToLower ''true'' = ''true''" "ToLower ''FALSE'' = ''false''"
    "ToLower ''123'' = ''123''" "ToLower ''3.14'' = ''3.14''" "ToLower ''hello'' = ''hello''"
    by code_simp+
  have a: "Atoi ''123'' = Some 123" "Atoi ''3.14'' = None" "Atoi ''hello'' = None"
    by code_simp+
  have "equalsIgnoreCase value ''false'' \<Longrightarrow> \<not> equalsIgnoreCase value ''true''"
    by (auto simp: equalsIgnoreCase_def list_all2_Cons2)
  then show ?thesis
    by (auto simp: convertValue_def ToLower_true ToLower_false t a split: option.splits)
qed

theorem C8_convertValue_witness:
  "convertValue parseFloatSample ''True'' = VBool True
   \<and> convertValue parseFloatSample ''fAlSe'' = VBool False
   \<and> convertValue parseFloatSample ''-42'' = VInt (- 42)
   \<and> convertValue parseFloatSample ''3.14'' = VFloat 0x40091EB851EB851F
   \<and> convertValue parseFloatSample ''hello'' = VStr ''hello''"
proof -
  have e: "equalsIgnoreCase ''True'' ''true''" "equalsIgnoreCase ''fAlSe'' ''false''"
    "\<not> equalsIgnoreCase ''-42'' ''true''" "\<not> equalsIgnoreCase ''-42'' ''false''"
    by code_simp+
  have a: "Atoi ''-42'' = Some (- 42)" by code_simp
  have p: "parseFloatSample ''3.14'' = Some 0x40091EB851EB851F"
    "parseFloatSample ''hello'' = None"
    by (simp_all add: parseFloatSample_def)
  note c = C8_convertValue [of _ parseFloatSample "0x40091EB851EB851F"]
  from c [of "''True''"] e have "convertValue parseFloatSample ''True'' = VBool True" by blast
  moreover from c [of "''fAlSe''"] e
  have "convertValue parseFloatSample ''fAlSe'' = VBool False" by blast
  moreover from c [of "''-42''"] e a
  have "convertValue parseFloatSample ''-42'' = VInt (- 42)" by simp
  moreover from c [of "''x''"] p
  have "convertValue parseFloatSample ''3.14'' = VFloat 0x40091EB851EB851F"
    "convertValue parseFloatSample ''hello'' = VStr ''hello''" by blast+
  ultimately show ?thesis by simp
qed

subsection \<open>C9: the order of merging\<close>

text \<open>
  C9, as stated: merging A then B differs from merging B then A whenever both define an
  overlapping key.  It fails when the two trees agree on the overlapping key: with
  \<^verbatim>\<open>A = {k: 1}\<close> and \<^verbatim>\<open>B = {k: 1, y: 2}\<close> both orders give \<^verbatim>\<open>{k: 1, y: 2}\<close>, merged
  into an empty accumulator or into one another.
\<close>

theorem C9_merge_order_counterexample:
  "map_of [(''k'', VInt 1)] ''k'' = Some (VInt 1)
   \<and> map_of [(''k'', VInt 1), (''y'', VInt 2)] ''k'' = Some (VInt 1)
   \<and> deepMerge (deepMerge [] [(''k'', VInt 1)]) [(''k'', VInt 1), (''y'', VInt 2)]
       = deepMerge (deepMerge [] [(''k'', VInt 1), (''y'', VInt 2)]) [(''k'', VInt 1)]
   \<and> deepMerge [(''k'', VInt 1)] [(''k'', VInt 1), (''y'', VInt 2)]
       = deepMerge [(''k'', VInt 1), (''y'', VInt 2)] [(''k'', VInt 1)]"
  by simp

text \<open>
  C9, amended: deep merging is deterministic: the merged tree, as a map, depends only on
  the two trees as maps, at every level and whatever the order in which their entries are
  visited.  Merging A then B yields a different result than merging B then A exactly when
  A and B hold different values at a common path, at least one of the two not a tree; at
  such a path the first result holds B's value and the second A's.
\<close>

theorem C9_merge_order:
  assumes "wfTree A" and "wfTree B"
  shows "(wfTree A' \<and> wfTree B' \<and> sameTree A A' \<and> sameTree B B' \<longrightarrow>
            sameTree (deepMerge (deepMerge [] A) B) (deepMerge (deepMerge [] A') B'))
       \<and> (lookupPath A p = Some a \<and> lookupPath B p = Some b \<and> \<not> (isMap a \<and> isMap b) \<longrightarrow>
            lookupPath (deepMerge (deepMerge [] A) B) p = Some b
            \<and> lookupPath (deepMerge (deepMerge [] B) A) p = Some a)
       \<and> (\<not> sameTree (deepMerge (deepMerge [] A) B) (deepMerge (deepMerge [] B) A) \<longleftrightarrow>
            (\<exists>q x y. lookupPath A q = Some x \<and> lookupPath B q = Some y
                     \<and> \<not> (isMap x \<and> isMap y) \<and> x \<noteq> y))"
proof (intro conjI impI)
  note cA = deepMerge_copy [OF assms(1)] and cB = deepMerge_copy [OF assms(2)]
  {
    assume h: "wfTree A' \<and> wfTree B' \<and> sameTree A A' \<and> sameTree B B'"
    then have "deepMerge [] A' = A'" by (simp add: deepMerge_copy)
    with h show "sameTree (deepMerge (deepMerge [] A) B) (deepMerge (deepMerge [] A') B')"
      unfolding cA sameTree_def [of "deepMerge A B"]
      using deepMerge_sameTree_at [OF assms(1) _ assms(2), of A' B'] by simp
  }
  {
    assume h: "lookupPath A p = Some a \<and> lookupPath B p = Some b \<and> \<not> (isMap a \<and> isMap b)"
    then have la: "lookupPath A p = Some a" and lb: "lookupPath B p = Some b"
      and n: "\<not> (isMap a \<and> isMap b)" and n': "\<not> (isMap b \<and> isMap a)" by auto
    show "lookupPath (deepMerge (deepMerge [] A) B) p = Some b"
      unfolding cA by (rule merge_at_conflict [OF assms la lb n])
    show "lookupPath (deepMerge (deepMerge [] B) A) p = Some a"
      unfolding cB by (rule merge_at_conflict [OF assms(2,1) lb la n'])
  }
  show "\<not> sameTree (deepMerge (deepMerge [] A) B) (deepMerge (deepMerge [] B) A) \<longleftrightarrow>
            (\<exists>q x y. lookupPath A q = Some x \<and> lookupPath B q = Some y
                     \<and> \<not> (isMap x \<and> isMap y) \<and> x \<noteq> y)"
    (is "?L \<longleftrightarrow> ?R")
  proof
    assume ?R
    then obtain q x y where lx: "lookupPath A q = Some x" and ly: "lookupPath B q = Some y"
      and n: "\<not> (isMap x \<and> isMap y)" and d: "x \<noteq> y" by blast
    from n have n': "\<not> (isMap y \<and> isMap x)" by auto
    have "lookupPath (deepMerge A B) q = Some y" by (rule merge_at_conflict [OF assms lx ly n])
    moreover have "lookupPath (deepMerge B A) q = Some x"
      by (rule merge_at_conflict [OF assms(2,1) ly lx n'])
    ultimately have "leafAt (deepMerge A B) q \<noteq> leafAt (deepMerge B A) q"
      using n d by (auto simp: leafAt_def)
    then show ?L unfolding cA cB sameTree_def by blast
  next
    assume l: ?L
    show ?R
    proof (rule ccontr)
      assume "\<not> ?R"
      then have ag: "x = y" if "lookupPath A q = Some x" "lookupPath B q = Some y"
        "\<not> (isMap x \<and> isMap y)" for q x y using that by blast
      have "keysAt (deepMerge A B) r = keysAt (deepMerge B A) r
          \<and> leafAt (deepMerge A B) r = leafAt (deepMerge B A) r" for r
      proof (rule merge_no_conflict [OF assms])
        fix q x y
        assume "lookupPath A q = Some x" "lookupPath B q = Some y" "\<not> (isMap x \<and> isMap y)"
        then show "x = y" by (rule ag)
      qed
      then have "sameTree (deepMerge A B) (deepMerge B A)"
        unfolding sameTree_def by blast
      with l show False unfolding cA cB by simp
    qed
  qed
qed

theorem C9_merge_order_witness:
  "lookupPath (deepMerge (deepMerge [] [(''k'', VMap [(''x'', VInt 1), (''y'', VInt 3)]), (''z'', VInt 0)])
                 [(''k'', VMap [(''x'', VInt 2)])]) [''k'', ''x''] = Some (VInt 2)
   \<and> lookupPath (deepMerge (deepMerge [] [(''k'', VMap [(''x'', VInt 2)])])
                 [(''k'', VMap [(''x'', VInt 1), (''y'', VInt 3)]), (''z'', VInt 0)]) [''k'', ''x'']
       = Some (VInt 1)
   \<and> \<not> sameTree
         (deepMerge (deepMerge [] [(''k'', VMap [(''x'', VInt 1), (''y'', VInt 3)]), (''z'', VInt 0)])
            [(''k'', VMap [(''x'', VInt 2)])])
         (deepMerge (deepMerge [] [(''k'', VMap [(''x'', VInt 2)])])
            [(''k'', VMap [(''x'', VInt 1), (''y'', VInt 3)]), (''z'', VInt 0)])
   \<and> sameTree
         (deepMerge (deepMerge [] [(''k'', VMap [(''x'', VInt 1), (''y'', VInt 3)]), (''z'', VInt 0)])
            [(''k'', VMap [(''x'', VInt 2)])])
         (deepMerge (deepMerge [] [(''z'', VInt 0), (''k'', VMap [(''y'', VInt 3), (''x'', VInt 1)])])
            [(''k'', VMap [(''x'', VInt 2)])])"
proof -
  let ?A = "[(''k'', VMap [(''x'', VInt 1), (''y'', VInt 3)]), (''z'', VInt 0)]"
  let ?A' = "[(''z'', VInt 0), (''k'', VMap [(''y'', VInt 3), (''x'', VInt 1)])]"
  let ?B = "[(''k'', VMap [(''x'', VInt 2)])]"
  have w: "wfTree ?A" "wfTree ?B" "wfTree ?A'" by simp_all
  have l: "lookupPath ?A [''k'', ''x''] = Some (VInt 1)" "lookupPath ?B [''k'', ''x''] = Some (VInt 2)"
    by simp_all
  have "sameTree [(''x'', VInt 1), (''y'', VInt 3)] [(''y'', VInt 3), (''x'', VInt 1)]"
    by (rule sameTreeI) simp
  then have s: "sameTree ?A ?A'" by (intro sameTreeI) simp
  note t = C9_merge_order [OF w(1,2), of ?A' ?B "[''k'', ''x'']" "VInt 1" "VInt 2"]
  from t w s sameTree_refl [of ?B]
  have "sameTree (deepMerge (deepMerge [] ?A) ?B) (deepMerge (deepMerge [] ?A') ?B)" by blast
  moreover from t l
  have "lookupPath (deepMerge (deepMerge [] ?A) ?B) [''k'', ''x''] = Some (VInt 2)
      \<and> lookupPath (deepMerge (deepMerge [] ?B) ?A) [''k'', ''x''] = Some (VInt 1)" by simp
  moreover have "\<exists>q x y. lookupPath ?A q = Some x \<and> lookupPath ?B q = Some y
                     \<and> \<not> (isMap x \<and> isMap y) \<and> x \<noteq> y"
    using l by (intro exI [of _ "[''k'', ''x'']"] exI [of _ "VInt 1"] exI [of _ "VInt 2"]) simp
  with t have "\<not> sameTree (deepMerge (deepMerge [] ?A) ?B) (deepMerge (deepMerge [] ?B) ?A)"
    by blast
  ultimately show ?thesis by blast
qed

subsection \<open>C10: nested mappings of the values file\<close>

text \<open>
  C10: \<^verbatim>\<open>deepMerge\<close> takes only \<^verbatim>\<open>map[string]any\<close> for a tree (\<^const>\<open>asMap\<close>).  When the
  file tree holds, at key k, a nested mapping as the YAML decoder produces it, with
  interface-typed keys, and a source of higher precedence (environment, override or
  config) also defines k, the merged value at k is the one obtained without the file.
  When the higher sources that define k hold trees there, the merged value at k is the
  merge of these trees alone, its keys are their keys, and where a single source holds a
  tree at k the merged value is that tree: the file's mapping is replaced as a whole, and
  the entries that only it has are absent.
\<close>

theorem C10_file_subtree_replaced:
  assumes "distinct (map fst yamlValues)" and "distinct (map fst envValues)"
    and "distinct (map fst setValues)" and "distinct (map fst configValues)"
    and "map_of yamlValues k = Some (VIMap fm)"
  shows "(map_of envValues k \<noteq> None \<or> map_of setValues k \<noteq> None \<or> map_of configValues k \<noteq> None \<longrightarrow>
            map_of (MergeValues yamlValues envValues setValues configValues) k
            = map_of (MergeValues [] envValues setValues configValues) k)
       \<and> (map_of envValues k = map_option VMap oe \<and> map_of setValues k = map_option VMap os
            \<and> map_of configValues k = map_option VMap oc
            \<and> (oe \<noteq> None \<or> os \<noteq> None \<or> oc \<noteq> None) \<longrightarrow>
            map_of (MergeValues yamlValues envValues setValues configValues) k
              = Some (VMap (MergeValues []
                              (case oe of None \<Rightarrow> [] | Some m \<Rightarrow> m)
                              (case os of None \<Rightarrow> [] | Some m \<Rightarrow> m)
                              (case oc of None \<Rightarrow> [] | Some m \<Rightarrow> m)))
            \<and> keysAt (MergeValues yamlValues envValues setValues configValues) [k]
              = keysAt envValues [k] \<union> keysAt setValues [k] \<union> keysAt configValues [k])
       \<and> (wfTree m \<and> map_of envValues k = Some (VMap m) \<and> map_of setValues k = None
            \<and> map_of configValues k = None \<longrightarrow>
            map_of (MergeValues yamlValues envValues setValues configValues) k = Some (VMap m))
       \<and> (wfTree m \<and> map_of envValues k = None \<and> map_of setValues k = Some (VMap m)
            \<and> map_of configValues k = None \<longrightarrow>
            map_of (MergeValues yamlValues envValues setValues configValues) k = Some (VMap m))
       \<and> (wfTree m \<and> map_of envValues k = None \<and> map_of setValues k = None
            \<and> map_of configValues k = Some (VMap m) \<longrightarrow>
            map_of (MergeValues yamlValues envValues setValues configValues) k = Some (VMap m))"
proof -
  let ?y = "deepMerge [] yamlValues"
  note me = deepMerge_map_of [OF assms(2)] and ms = deepMerge_map_of [OF assms(3)]
    and mc = deepMerge_map_of [OF assms(4)]
  have y: "map_of ?y k = Some (VIMap fm)"
    by (simp add: deepMerge_at_Some [OF assms(1) assms(5)] mergeEntry_def)
  have gen: "map_of (MergeValues yamlValues envValues setValues configValues) k
              = Some (VMap (MergeValues []
                              (case oe of None \<Rightarrow> [] | Some m \<Rightarrow> m)
                              (case os of None \<Rightarrow> [] | Some m \<Rightarrow> m)
                              (case oc of None \<Rightarrow> [] | Some m \<Rightarrow> m)))"
    if "map_of envValues k = map_option VMap oe" "map_of setValues k = map_option VMap os"
       "map_of configValues k = map_option VMap oc" "oe \<noteq> None \<or> os \<noteq> None \<or> oc \<noteq> None"
    for oe os oc
    using that y
    by (cases oe; cases os; cases oc) (simp_all add: MergeValues_def me ms mc mergeEntry_def)
  have keys: "keysAt (MergeValues yamlValues envValues setValues configValues) [k]
              = keysAt envValues [k] \<union> keysAt setValues [k] \<union> keysAt configValues [k]"
    if "map_of envValues k = map_option VMap oe" "map_of setValues k = map_option VMap os"
       "map_of configValues k = map_option VMap oc" "oe \<noteq> None \<or> os \<noteq> None \<or> oc \<noteq> None"
    for oe os oc
  proof -
    have "keysAt t [k] = fst ` set (case ot of None \<Rightarrow> [] | Some m \<Rightarrow> m)"
      if "map_of t k = map_option VMap ot" for t ot
      using that by (cases ot) (simp_all add: keysAt_def)
    with that gen [OF that] show ?thesis
      by (simp add: keysAt_def MergeValues_def deepMerge_keys)
  qed
  have single: "MergeValues [] m [] [] = m" "MergeValues [] [] m [] = m" "MergeValues [] [] [] m = m"
    if "wfTree m" for m
    using that by (simp_all add: MergeValues_def deepMerge_copy)
  have a0: "asMap (map_of ?y k) = asMap (map_of (deepMerge [] []) k)" using y by simp
  note a1 = deepMerge_indep_asMap [OF assms(2) a0]
  note a2 = deepMerge_indep_asMap [OF assms(3) a1]
  have without: "map_of (MergeValues yamlValues envValues setValues configValues) k
            = map_of (MergeValues [] envValues setValues configValues) k"
    if h: "map_of envValues k \<noteq> None \<or> map_of setValues k \<noteq> None \<or> map_of configValues k \<noteq> None"
  proof -
    have "map_of (deepMerge (deepMerge (deepMerge ?y envValues) setValues) configValues) k
        = map_of (deepMerge (deepMerge (deepMerge (deepMerge [] []) envValues) setValues) configValues) k"
    proof (rule deepMerge_indep [OF assms(4) a2])
      assume c: "map_of configValues k = None"
      show "map_of (deepMerge (deepMerge ?y envValues) setValues) k
          = map_of (deepMerge (deepMerge (deepMerge [] []) envValues) setValues) k"
      proof (rule deepMerge_indep [OF assms(3) a1])
        assume s: "map_of setValues k = None"
        show "map_of (deepMerge ?y envValues) k = map_of (deepMerge (deepMerge [] []) envValues) k"
        proof (rule deepMerge_indep [OF assms(2) a0])
          assume "map_of envValues k = None"
          with h c s show "map_of ?y k = map_of (deepMerge [] []) k" by simp
        qed
      qed
    qed
    then show ?thesis by (simp add: MergeValues_def)
  qed
  show ?thesis
  proof (intro conjI impI)
    assume "map_of envValues k \<noteq> None \<or> map_of setValues k \<noteq> None \<or> map_of configValues k \<noteq> None"
    then show "map_of (MergeValues yamlValues envValues setValues configValues) k
            = map_of (MergeValues [] envValues setValues configValues) k" by (rule without)
  next
    assume h: "map_of envValues k = map_option VMap oe \<and> map_of setValues k = map_option VMap os
            \<and> map_of configValues k = map_option VMap oc
            \<and> (oe \<noteq> None \<or> os \<noteq> None \<or> oc \<noteq> None)"
    then show "map_of (MergeValues yamlValues envValues setValues configValues) k
              = Some (VMap (MergeValues []
                              (case oe of None \<Rightarrow> [] | Some m \<Rightarrow> m)
                              (case os of None \<Rightarrow> [] | Some m \<Rightarrow> m)
                              (case oc of None \<Rightarrow> [] | Some m \<Rightarrow> m)))"
      by (intro gen) simp_all
    from h show "keysAt (MergeValues yamlValues envValues setValues configValues) [k]
              = keysAt envValues [k] \<union> keysAt setValues [k] \<union> keysAt configValues [k]"
      by (intro keys [of oe os oc]) simp_all
  next
    assume "wfTree m \<and> map_of envValues k = Some (VMap m) \<and> map_of setValues k = None
            \<and> map_of configValues k = None"
    then show "map_of (MergeValues yamlValues envValues setValues configValues) k = Some (VMap m)"
      using gen [of "Some m" None None] single [of m] by simp
  next
    assume "wfTree m \<and> map_of envValues k = None \<and> map_of setValues k = Some (VMap m)
            \<and> map_of configValues k = None"
    then show "map_of (MergeValues yamlValues envValues setValues configValues) k = Some (VMap m)"
      using gen [of None "Some m" None] single [of m] by simp
  next
    assume "wfTree m \<and> map_of envValues k = None \<and> map_of setValues k = None
            \<and> map_of configValues k = Some (VMap m)"
    then show "map_of (MergeValues yamlValues envValues setValues configValues) k = Some (VMap m)"
      using gen [of None None "Some m"] single [of m] by simp
  qed
qed

theorem C10_file_subtree_replaced_witness:
  "map_of (MergeValues
             [(''app'', VIMap [(VStr ''name'', VStr ''yaml-app''), (VStr ''version'', VStr ''1.0'')])]
             [(''app'', VMap [(''name'', VStr ''env-app'')])]
             []
             []) ''app''
     = Some (VMap [(''name'', VStr ''env-app'')])
   \<and> map_of (MergeValues
             [(''app'', VIMap [(VStr ''name'', VStr ''yaml-app''), (VStr ''version'', VStr ''1.0'')])]
             [(''app'', VMap [(''name'', VStr ''env-app'')])]
             []
             [(''app'', VMap [(''debug'', VBool True)])]) ''app''
     = Some (VMap [(''name'', VStr ''env-app''), (''debug'', VBool True)])
   \<and> keysAt (MergeValues
             [(''app'', VIMap [(VStr ''name'', VStr ''yaml-app''), (VStr ''version'', VStr ''1.0'')])]
             [(''app'', VMap [(''name'', VStr ''env-app'')])]
             []
             [(''app'', VMap [(''debug'', VBool True)])]) [''app'']
     = {''name'', ''debug''}"
proof -
  let ?y = "[(''app'', VIMap [(VStr ''name'', VStr ''yaml-app''), (VStr ''version'', VStr ''1.0'')])]"
  let ?e = "[(''app'', VMap [(''name'', VStr ''env-app'')])]"
  let ?c = "[(''app'', VMap [(''debug'', VBool True)])]"
  have d: "distinct (map fst ?y)" "distinct (map fst ?e)" "distinct (map fst ([] :: tree))"
    "distinct (map fst ?c)" by simp_all
  have y: "map_of ?y ''app'' = Some (VIMap [(VStr ''name'', VStr ''yaml-app''), (VStr ''version'', VStr ''1.0'')])"
    by simp
  have h1: "wfTree [(''name'', VStr ''env-app'')]
      \<and> map_of ?e ''app'' = Some (VMap [(''name'', VStr ''env-app'')])
      \<and> map_of ([] :: tree) ''app'' = None \<and> map_of ([] :: tree) ''app'' = None" by simp
  have h2: "map_of ?e ''app'' = map_option VMap (Some [(''name'', VStr ''env-app'')])
      \<and> map_of ([] :: tree) ''app'' = map_option VMap None
      \<and> map_of ?c ''app'' = map_option VMap (Some [(''debug'', VBool True)])
      \<and> (Some [(''name'', VStr ''env-app'')] \<noteq> None \<or> (None :: tree option) \<noteq> None
           \<or> Some [(''debug'', VBool True)] \<noteq> None)" by simp
  have m: "MergeValues [] [(''name'', VStr ''env-app'')] [] [(''debug'', VBool True)]
             = [(''name'', VStr ''env-app''), (''debug'', VBool True)]"
    by (simp add: MergeValues_def)
  have k: "keysAt ?e [''app''] \<union> keysAt ([] :: tree) [''app''] \<union> keysAt ?c [''app'']
             = {''name'', ''debug''}"
    by (auto simp: keysAt_def)
  from C10_file_subtree_replaced [OF d(1,2,3,3) y, where m = "[(''name'', VStr ''env-app'')]"] h1
  have "map_of (MergeValues ?y ?e [] []) ''app'' = Some (VMap [(''name'', VStr ''env-app'')])"
    by blast
  moreover
  from C10_file_subtree_replaced [OF d(1,2,3,4) y, where oe = "Some [(''name'', VStr ''env-app'')]"
      and os = None and oc = "Some [(''debug'', VBool True)]"] h2
  have "map_of (MergeValues ?y ?e [] ?c) ''app''
          = Some (VMap (MergeValues []
                          (case Some [(''name'', VStr ''env-app'')] of None \<Rightarrow> [] | Some m \<Rightarrow> m)
                          (case None of None \<Rightarrow> [] | Some m \<Rightarrow> m)
                          (case Some [(''debug'', VBool True)] of None \<Rightarrow> [] | Some m \<Rightarrow> m)))
      \<and> keysAt (MergeValues ?y ?e [] ?c) [''app'']
          = keysAt ?e [''app''] \<union> keysAt ([] :: tree) [''app''] \<union> keysAt ?c [''app'']"
    by blast
  then have "map_of (MergeValues ?y ?e [] ?c) ''app''
          = Some (VMap (MergeValues [] [(''name'', VStr ''env-app'')] [] [(''debug'', VBool True)]))
      \<and> keysAt (MergeValues ?y ?e [] ?c) [''app'']
          = keysAt ?e [''app''] \<union> keysAt ([] :: tree) [''app''] \<union> keysAt ?c [''app'']"
    by (simp only: option.case)
  ultimately show ?thesis unfolding m k by blast
qed
end
